theory Spec2Isabelle
  imports Main "HOL-Library.Word"
begin

unbundle bit_operations_syntax

section \<open>The host platform\<close>

text \<open>
  Both implementations of the codec are written against the JavaScript platform: an
  \<^verbatim>\<open>ArrayBuffer\<close> that is read and written through a \<^verbatim>\<open>DataView\<close> and a
  \<^verbatim>\<open>Uint8Array\<close>, the global \<^verbatim>\<open>TextEncoder\<close> and \<^verbatim>\<open>TextDecoder\<close>, \<^verbatim>\<open>Date\<close> and
  ordinary objects. This section fixes what those operations compute. An exception is a
  value \<open>Inl e\<close>; a mutation returns the new buffer.
\<close>

type_synonym byte = "8 word"
type_synonym bytes = "byte list"

text \<open>
  The exceptions that can leave the codec: the \<^verbatim>\<open>RangeError\<close> of an out-of-bounds
  \<^verbatim>\<open>DataView\<close> or typed-array access, and the three \<^verbatim>\<open>Error\<close>s that the second
  implementation throws itself (\<^verbatim>\<open>'Empty buffer'\<close>, \<^verbatim>\<open>'Unknown type code: n'\<close>,
  \<^verbatim>\<open>'Unsupported value'\<close>).
\<close>

datatype error = RangeError | EmptyBuffer | UnknownTypeCode nat | UnsupportedValue

subsection \<open>Big-endian fields\<close>

text \<open>\<^verbatim>\<open>DataView\<close> accessors are called without the little-endian flag: big-endian.\<close>

definition be32 :: "32 word \<Rightarrow> bytes" where
  "be32 w = [ucast (drop_bit 24 w), ucast (drop_bit 16 w), ucast (drop_bit 8 w), ucast w]"

definition from_be32 :: "bytes \<Rightarrow> 32 word" where
  "from_be32 bs =
     push_bit 24 (ucast (bs ! 0)) OR push_bit 16 (ucast (bs ! 1)) OR
     push_bit 8 (ucast (bs ! 2)) OR ucast (bs ! 3)"

definition be64 :: "64 word \<Rightarrow> bytes" where
  "be64 w =
     [ucast (drop_bit 56 w), ucast (drop_bit 48 w), ucast (drop_bit 40 w), ucast (drop_bit 32 w),
      ucast (drop_bit 24 w), ucast (drop_bit 16 w), ucast (drop_bit 8 w), ucast w]"

definition from_be64 :: "bytes \<Rightarrow> 64 word" where
  "from_be64 bs =
     push_bit 56 (ucast (bs ! 0)) OR push_bit 48 (ucast (bs ! 1)) OR
     push_bit 40 (ucast (bs ! 2)) OR push_bit 32 (ucast (bs ! 3)) OR
     push_bit 24 (ucast (bs ! 4)) OR push_bit 16 (ucast (bs ! 5)) OR
     push_bit 8 (ucast (bs ! 6)) OR ucast (bs ! 7)"

subsection \<open>DataView, ArrayBuffer.slice and Uint8Array.set\<close>

text \<open>
  \<open>store buf off src\<close> overwrites \<open>length src\<close> bytes of \<open>buf\<close> from index \<open>off\<close>; it
  is the common part of every write below, and raises when the bytes do not fit.
\<close>

definition store :: "bytes \<Rightarrow> nat \<Rightarrow> bytes \<Rightarrow> error + bytes" where
  "store buf off src =
     (if off + length src \<le> length buf
      then Inr (take off buf @ src @ drop (off + length src) buf)
      else Inl RangeError)"

definition setUint8 :: "bytes \<Rightarrow> nat \<Rightarrow> byte \<Rightarrow> error + bytes" where
  "setUint8 buf off b = store buf off [b]"

text \<open>\<^verbatim>\<open>setUint32\<close> converts its argument with ToUint32: modulo \<open>2 ^ 32\<close>.\<close>

definition setUint32 :: "bytes \<Rightarrow> nat \<Rightarrow> nat \<Rightarrow> error + bytes" where
  "setUint32 buf off n = store buf off (be32 (of_nat n))"

text \<open>
  A JavaScript number is kept as the 64 bits of its IEEE-754 double, which is what
  \<^verbatim>\<open>setFloat64\<close> writes and \<^verbatim>\<open>getFloat64\<close> reads; the codec does no arithmetic on them.
\<close>

definition setFloat64 :: "bytes \<Rightarrow> nat \<Rightarrow> 64 word \<Rightarrow> error + bytes" where
  "setFloat64 buf off x = store buf off (be64 x)"

definition Uint8Array_set :: "bytes \<Rightarrow> bytes \<Rightarrow> nat \<Rightarrow> error + bytes" where
  "Uint8Array_set buf src off = store buf off src"

definition getUint8 :: "bytes \<Rightarrow> nat \<Rightarrow> error + byte" where
  "getUint8 buf off = (if off < length buf then Inr (buf ! off) else Inl RangeError)"

definition getUint32 :: "bytes \<Rightarrow> nat \<Rightarrow> error + nat" where
  "getUint32 buf off =
     (if off + 4 \<le> length buf then Inr (unat (from_be32 (take 4 (drop off buf))))
      else Inl RangeError)"

definition getFloat64 :: "bytes \<Rightarrow> nat \<Rightarrow> error + 64 word" where
  "getFloat64 buf off =
     (if off + 8 \<le> length buf then Inr (from_be64 (take 8 (drop off buf)))
      else Inl RangeError)"

text \<open>\<^verbatim>\<open>buffer.slice(begin, end)\<close> clamps both ends to the buffer and never raises.\<close>

definition slice :: "bytes \<Rightarrow> nat \<Rightarrow> nat \<Rightarrow> bytes" where
  "slice buf begin end = take (end - begin) (drop begin buf)"

definition ArrayBuffer :: "nat \<Rightarrow> bytes" where
  "ArrayBuffer n = replicate n 0"

subsection \<open>TextEncoder and TextDecoder\<close>

text \<open>
  A JavaScript string is a sequence of UTF-16 code units. \<^verbatim>\<open>TextEncoder.encode\<close> first
  converts it to scalar values (a surrogate that is not part of a pair becomes U+FFFD) and
  writes each as UTF-8.
\<close>

type_synonym jsstring = "16 word list"

definition is_high_surrogate :: "16 word \<Rightarrow> bool" where
  "is_high_surrogate u = (0xD800 \<le> u \<and> u \<le> 0xDBFF)"

definition is_low_surrogate :: "16 word \<Rightarrow> bool" where
  "is_low_surrogate u = (0xDC00 \<le> u \<and> u \<le> 0xDFFF)"

fun code_points :: "jsstring \<Rightarrow> nat list" where
  "code_points [] = []"
| "code_points [u] =
     [if is_high_surrogate u \<or> is_low_surrogate u then 0xFFFD else unat u]"
| "code_points (u # l # us) =
     (if is_high_surrogate u \<and> is_low_surrogate l
      then (0x10000 + (unat u - 0xD800) * 0x400 + (unat l - 0xDC00)) # code_points us
      else (if is_high_surrogate u \<or> is_low_surrogate u then 0xFFFD else unat u)
           # code_points (l # us))"

definition utf8_bytes :: "nat \<Rightarrow> bytes" where
  "utf8_bytes c =
     (if c < 0x80 then [of_nat c]
      else if c < 0x800 then [of_nat (0xC0 + c div 0x40), of_nat (0x80 + c mod 0x40)]
      else if c < 0x10000 then
        [of_nat (0xE0 + c div 0x1000), of_nat (0x80 + c div 0x40 mod 0x40),
         of_nat (0x80 + c mod 0x40)]
      else
        [of_nat (0xF0 + c div 0x40000), of_nat (0x80 + c div 0x1000 mod 0x40),
         of_nat (0x80 + c div 0x40 mod 0x40), of_nat (0x80 + c mod 0x40)])"

definition TextEncoder_encode :: "jsstring \<Rightarrow> bytes" where
  "TextEncoder_encode s = concat (map utf8_bytes (code_points s))"

text \<open>
  \<^verbatim>\<open>TextDecoder.decode\<close> (UTF-8, not fatal, \<^verbatim>\<open>ignoreBOM\<close> false, as \<^verbatim>\<open>new TextDecoder()\<close>
  gives): every ill-formed sequence decodes to U+FFFD and decoding resumes at the byte that
  broke it; a U+FEFF that comes first is dropped. \<open>utf8_cont n c lo hi\<close> is the decoder
  with \<open>n\<close> bytes still needed, \<open>c\<close> the code point so far and \<open>lo\<close>, \<open>hi\<close> the bounds
  of the next byte.
\<close>

function utf8_start :: "bytes \<Rightarrow> nat list"
  and utf8_cont :: "nat \<Rightarrow> nat \<Rightarrow> nat \<Rightarrow> nat \<Rightarrow> bytes \<Rightarrow> nat list"
where
  "utf8_start [] = []"
| "utf8_start (b # bs) =
     (if unat b \<le> 0x7F then unat b # utf8_start bs
      else if 0xC2 \<le> unat b \<and> unat b \<le> 0xDF then utf8_cont 1 (unat b mod 0x20) 0x80 0xBF bs
      else if 0xE0 \<le> unat b \<and> unat b \<le> 0xEF then
        utf8_cont 2 (unat b mod 0x10)
          (if unat b = 0xE0 then 0xA0 else 0x80) (if unat b = 0xED then 0x9F else 0xBF) bs
      else if 0xF0 \<le> unat b \<and> unat b \<le> 0xF4 then
        utf8_cont 3 (unat b mod 0x08)
          (if unat b = 0xF0 then 0x90 else 0x80) (if unat b = 0xF4 then 0x8F else 0xBF) bs
      else 0xFFFD # utf8_start bs)"
| "utf8_cont n c lo hi [] = [0xFFFD]"
| "utf8_cont n c lo hi (b # bs) =
     (if unat b < lo \<or> hi < unat b then 0xFFFD # utf8_start (b # bs)
      else if n \<le> 1 then (c * 0x40 + unat b mod 0x40) # utf8_start bs
      else utf8_cont (n - 1) (c * 0x40 + unat b mod 0x40) 0x80 0xBF bs)"
  by pat_completeness auto
termination
  by (relation "measure (\<lambda>x. case x of Inl bs \<Rightarrow> 2 * length bs
                                   | Inr (n, c, lo, hi, bs) \<Rightarrow> 2 * length bs + 1)") auto

definition code_units :: "nat \<Rightarrow> jsstring" where
  "code_units c =
     (if c < 0x10000 then [of_nat c]
      else [of_nat (0xD800 + (c - 0x10000) div 0x400), of_nat (0xDC00 + (c - 0x10000) mod 0x400)])"

definition strip_bom :: "nat list \<Rightarrow> nat list" where
  "strip_bom cs = (case cs of [] \<Rightarrow> [] | c # cs' \<Rightarrow> if c = 0xFEFF then cs' else cs)"

definition TextDecoder_decode :: "bytes \<Rightarrow> jsstring" where
  "TextDecoder_decode bs = concat (map code_units (strip_bom (utf8_start bs)))"

subsection \<open>Date\<close>

text \<open>
  \<^verbatim>\<open>new Date(x)\<close> stores TimeClip of \<open>x\<close>: NaN when \<open>x\<close> is not finite or beyond
  \<open>8.64e15\<close> milliseconds in magnitude, otherwise \<open>x\<close> truncated towards zero to a
  whole number of milliseconds (and never \<open>-0\<close>). It is computed here on the bits of the
  double: eleven exponent bits above fifty-two fraction bits.
\<close>

definition NaN :: "64 word" where
  "NaN = 0x7FF8000000000000"

definition TimeClip :: "64 word \<Rightarrow> 64 word" where
  "TimeClip x =
     (let magnitude = take_bit 63 x; e = unat (drop_bit 52 magnitude) in
      if e = 0x7FF then NaN
      else if 0x433EB208C2DC0000 < magnitude then NaN
      else if e < 0x3FF then 0
      else if 0x433 \<le> e then x
      else push_bit (0x433 - e) (drop_bit (0x433 - e) x))"

section \<open>Values\<close>

text \<open>
  The values the codec is given and returns. A typed array is a view of a part of an
  \<^verbatim>\<open>ArrayBuffer\<close>: its element kind and the bytes of the buffer before the part it shows,
  in it and after it, so that \<^verbatim>\<open>byteOffset\<close> is the length of the first and \<^verbatim>\<open>byteLength\<close>
  the length of the second. A number and the time value of a \<^verbatim>\<open>Date\<close> are doubles (their bits). An
  array is the list of its elements; an object is the list of its own enumerable
  properties in the order \<^verbatim>\<open>for ... in\<close> visits them. \<open>Undefined\<close> and \<open>Function\<close>
  stand for the values outside the supported domain.
\<close>

datatype kind = Int8 | Int16 | Int32 | Uint8 | Uint16 | Uint32 | Float32 | Float64

datatype "value" =
    Undefined
  | Function
  | Null
  | Boolean bool
  | Number "64 word"
  | Str jsstring
  | Date "64 word"
  | TypedArray kind bytes bytes bytes
  | Array "value list"
  | Object "(jsstring \<times> value) list"

fun BYTES_PER_ELEMENT :: "kind \<Rightarrow> nat" where
  "BYTES_PER_ELEMENT Int8 = 1"
| "BYTES_PER_ELEMENT Int16 = 2"
| "BYTES_PER_ELEMENT Int32 = 4"
| "BYTES_PER_ELEMENT Uint8 = 1"
| "BYTES_PER_ELEMENT Uint16 = 2"
| "BYTES_PER_ELEMENT Uint32 = 4"
| "BYTES_PER_ELEMENT Float32 = 4"
| "BYTES_PER_ELEMENT Float64 = 8"

text \<open>
  \<^verbatim>\<open>new Int16Array(sub)\<close> and its siblings: a view of the whole of \<open>sub\<close>, or a
  \<^verbatim>\<open>RangeError\<close> when the byte length is not a multiple of the element size.
\<close>

definition new_TypedArray :: "kind \<Rightarrow> bytes \<Rightarrow> error + value" where
  "new_TypedArray k sub =
     (if length sub mod BYTES_PER_ELEMENT k = 0 then Inr (TypedArray k [] sub [])
      else Inl RangeError)"

text \<open>
  What the source reads off a value after an unchecked cast or a property access. Each
  is meant for one kind of value; on the others it returns a fixed default, on paths that
  the type dispatch of the callers never takes.
\<close>

fun asNumber :: "value \<Rightarrow> 64 word" where
  "asNumber (Number x) = x"
| "asNumber _ = NaN"

fun getTime :: "value \<Rightarrow> 64 word" where
  "getTime (Date t) = t"
| "getTime _ = NaN"

fun asString :: "value \<Rightarrow> jsstring" where
  "asString (Str s) = s"
| "asString _ = []"

fun asArray :: "value \<Rightarrow> value list" where
  "asArray (Array vs) = vs"
| "asArray _ = []"

fun asObject :: "value \<Rightarrow> (jsstring \<times> value) list" where
  "asObject (Object ps) = ps"
| "asObject _ = []"

fun buffer_of :: "value \<Rightarrow> bytes" where
  "buffer_of (TypedArray k front shown rest) = front @ shown @ rest"
| "buffer_of _ = []"

fun byteOffset :: "value \<Rightarrow> nat" where
  "byteOffset (TypedArray k front shown rest) = length front"
| "byteOffset _ = 0"

fun byteLength :: "value \<Rightarrow> nat" where
  "byteLength (TypedArray k front shown rest) = length shown"
| "byteLength _ = 0"

text \<open>The truth value of \<^verbatim>\<open>value ? 0xff : 0x00\<close>: false for \<open>\<plusminus>0\<close>, NaN and the empty string.\<close>

fun truthy :: "value \<Rightarrow> bool" where
  "truthy Undefined = False"
| "truthy Null = False"
| "truthy (Boolean b) = b"
| "truthy (Number x) = (take_bit 63 x \<noteq> 0 \<and> take_bit 63 x \<le> 0x7FF0000000000000)"
| "truthy (Str s) = (s \<noteq> [])"
| "truthy _ = True"

subsection \<open>Assignment to a property of a plain object\<close>

text \<open>
  \<^verbatim>\<open>obj[key] = val\<close> on an object that started as \<^verbatim>\<open>{}\<close>. The key \<^verbatim>\<open>__proto__\<close>
  reaches the setter of \<^verbatim>\<open>Object.prototype\<close> and adds no property. A key that exists
  keeps its place. A new key that is an array index (the decimal form of a number below
  \<open>2 ^ 32 - 1\<close>) goes among the array indices in ascending order, which come first; any
  other new key goes last.
\<close>

definition proto_key :: jsstring where
  "proto_key = [0x5F, 0x5F, 0x70, 0x72, 0x6F, 0x74, 0x6F, 0x5F, 0x5F]"

definition decimal :: "jsstring \<Rightarrow> nat" where
  "decimal k = foldl (\<lambda>n u. 10 * n + (unat u - 0x30)) 0 k"

definition array_index :: "jsstring \<Rightarrow> nat option" where
  "array_index k =
     (if k \<noteq> [] \<and> list_all (\<lambda>u. 0x30 \<le> u \<and> u \<le> 0x39) k \<and> (hd k \<noteq> 0x30 \<or> length k = 1)
         \<and> decimal k < 2 ^ 32 - 1
      then Some (decimal k) else None)"

fun insert_index :: "nat \<Rightarrow> jsstring \<Rightarrow> value \<Rightarrow> (jsstring \<times> value) list \<Rightarrow> (jsstring \<times> value) list"
where
  "insert_index n k v [] = [(k, v)]"
| "insert_index n k v (p # ps) =
     (case array_index (fst p) of
        Some m \<Rightarrow> if m < n then p # insert_index n k v ps else (k, v) # p # ps
      | None \<Rightarrow> (k, v) # p # ps)"

definition set_property ::
  "(jsstring \<times> value) list \<Rightarrow> jsstring \<Rightarrow> value \<Rightarrow> (jsstring \<times> value) list"
where
  "set_property ps k v =
     (if k = proto_key then ps
      else if k \<in> fst ` set ps then map (\<lambda>p. if fst p = k then (k, v) else p) ps
      else case array_index k of Some n \<Rightarrow> insert_index n k v ps | None \<Rightarrow> ps @ [(k, v)])"

text \<open>
  A property key that is not a string is converted with ToString, whose result for
  numbers and dates depends on number formatting and on the time zone of the host. The
  decoders take that conversion as the parameter \<open>toString\<close>; a key that is a string is
  used as it is.
\<close>

fun ToPropertyKey :: "(value \<Rightarrow> jsstring) \<Rightarrow> value \<Rightarrow> jsstring" where
  "ToPropertyKey toString (Str s) = s"
| "ToPropertyKey toString v = toString v"

section \<open>The first implementation\<close>

text \<open>
  The keys of the two \<^verbatim>\<open>TYPES\<close> tables; each implementation gives them its own
  numbers.
\<close>

datatype tname =
    T_Null | T_Boolean | T_Number | T_Date
  | T_Int8Array | T_Int16Array | T_Int32Array | T_Uint8Array | T_Uint16Array | T_Uint32Array
  | T_Float32Array | T_Float64Array
  | T_String | T_Array | T_Object

fun TYPES_A :: "tname \<Rightarrow> nat" where
  "TYPES_A T_Null = 1"
| "TYPES_A T_Boolean = 2"
| "TYPES_A T_Number = 3"
| "TYPES_A T_Date = 4"
| "TYPES_A T_Int8Array = 11"
| "TYPES_A T_Int16Array = 12"
| "TYPES_A T_Int32Array = 13"
| "TYPES_A T_Uint8Array = 14"
| "TYPES_A T_Uint16Array = 15"
| "TYPES_A T_Uint32Array = 16"
| "TYPES_A T_Float32Array = 17"
| "TYPES_A T_Float64Array = 18"
| "TYPES_A T_String = 21"
| "TYPES_A T_Array = 22"
| "TYPES_A T_Object = 23"

fun typeIndexOf :: "value \<Rightarrow> nat" where
  "typeIndexOf Function = TYPES_A T_Null"
| "typeIndexOf Null = TYPES_A T_Null"
| "typeIndexOf Undefined = TYPES_A T_Null"
| "typeIndexOf (TypedArray Int8 front shown rest) = TYPES_A T_Int8Array"
| "typeIndexOf (TypedArray Int16 front shown rest) = TYPES_A T_Int16Array"
| "typeIndexOf (TypedArray Int32 front shown rest) = TYPES_A T_Int32Array"
| "typeIndexOf (TypedArray Uint8 front shown rest) = TYPES_A T_Uint8Array"
| "typeIndexOf (TypedArray Uint16 front shown rest) = TYPES_A T_Uint16Array"
| "typeIndexOf (TypedArray Uint32 front shown rest) = TYPES_A T_Uint32Array"
| "typeIndexOf (TypedArray Float32 front shown rest) = TYPES_A T_Float32Array"
| "typeIndexOf (TypedArray Float64 front shown rest) = TYPES_A T_Float64Array"
| "typeIndexOf (Array vs) = TYPES_A T_Array"
| "typeIndexOf (Date t) = TYPES_A T_Date"
| "typeIndexOf (Number x) = TYPES_A T_Number"
| "typeIndexOf (Boolean b) = TYPES_A T_Boolean"
| "typeIndexOf (Object ps) = TYPES_A T_Object"
| "typeIndexOf (Str s) = TYPES_A T_String"

subsection \<open>readChunk\<close>

text \<open>
  The first half of \<^verbatim>\<open>readChunk\<close>, which has no recursion: for a type index from
  \<^verbatim>\<open>TYPES.Int8Array\<close> up, the length field, and up to \<^verbatim>\<open>TYPES.String\<close> the slice of that
  length and its first \<^verbatim>\<open>switch\<close>. It returns \<^verbatim>\<open>length\<close>, \<^verbatim>\<open>offset\<close> and \<^verbatim>\<open>value\<close> as
  they stand before the second \<^verbatim>\<open>switch\<close>; \<open>offset\<close> is the offset after the type byte.
\<close>

definition readSub_A :: "nat \<Rightarrow> bytes \<Rightarrow> error + value" where
  "readSub_A typeIndex sub =
     (if typeIndex = TYPES_A T_Int8Array then new_TypedArray Int8 sub
      else if typeIndex = TYPES_A T_Int16Array then new_TypedArray Int16 sub
      else if typeIndex = TYPES_A T_Int32Array then new_TypedArray Int32 sub
      else if typeIndex = TYPES_A T_Uint8Array then new_TypedArray Uint8 sub
      else if typeIndex = TYPES_A T_Uint16Array then new_TypedArray Uint16 sub
      else if typeIndex = TYPES_A T_Uint32Array then new_TypedArray Uint32 sub
      else if typeIndex = TYPES_A T_Float32Array then new_TypedArray Float32 sub
      else if typeIndex = TYPES_A T_Float64Array then new_TypedArray Float64 sub
      else if typeIndex = TYPES_A T_String then Inr (Str (TextDecoder_decode sub))
      else Inr Null)"

definition readLength_A :: "bytes \<Rightarrow> nat \<Rightarrow> nat \<Rightarrow> error + (nat \<times> nat \<times> value)" where
  "readLength_A buffer typeIndex offset =
     (if TYPES_A T_Int8Array \<le> typeIndex then
        (case getUint32 buffer offset of
           Inl e \<Rightarrow> Inl e
         | Inr len \<Rightarrow>
             if typeIndex \<le> TYPES_A T_String then
               (case readSub_A typeIndex (slice buffer (offset + 4) (offset + 4 + len)) of
                  Inl e \<Rightarrow> Inl e
                | Inr value \<Rightarrow> Inr (len, offset + 4 + len, value))
             else Inr (len, offset + 4, Null))
      else Inr (0, offset, Null))"

function readChunk_A :: "(value \<Rightarrow> jsstring) \<Rightarrow> bytes \<Rightarrow> nat \<Rightarrow> error + (value \<times> nat)"
  and readArray_A ::
    "(value \<Rightarrow> jsstring) \<Rightarrow> bytes \<Rightarrow> nat \<Rightarrow> nat \<Rightarrow> nat \<Rightarrow> value list \<Rightarrow> error + (value list \<times> nat)"
  and readObject_A ::
    "(value \<Rightarrow> jsstring) \<Rightarrow> bytes \<Rightarrow> nat \<Rightarrow> nat \<Rightarrow> nat \<Rightarrow> (jsstring \<times> value) list
       \<Rightarrow> error + ((jsstring \<times> value) list \<times> nat)"
where
  "readChunk_A toString buffer offset =
     (case getUint8 buffer offset of
        Inl e \<Rightarrow> Inl e
      | Inr b \<Rightarrow>
         (case readLength_A buffer (unat b) (offset + 1) of
            Inl e \<Rightarrow> Inl e
          | Inr (len, offset', value) \<Rightarrow>
              if unat b = TYPES_A T_Null then Inr (Null, offset')
              else if unat b = TYPES_A T_Boolean then
                (case getUint8 buffer offset' of
                   Inl e \<Rightarrow> Inl e
                 | Inr x \<Rightarrow> Inr (Boolean (x \<noteq> 0), offset' + 1))
              else if unat b = TYPES_A T_Number then
                (case getFloat64 buffer offset' of
                   Inl e \<Rightarrow> Inl e
                 | Inr x \<Rightarrow> Inr (Number x, offset' + 8))
              else if unat b = TYPES_A T_Array then
                (case readArray_A toString buffer len 0 offset' [] of
                   Inl e \<Rightarrow> Inl e
                 | Inr (items, offset'') \<Rightarrow> Inr (Array items, offset''))
              else if unat b = TYPES_A T_Object then
                (case readObject_A toString buffer len 0 offset' [] of
                   Inl e \<Rightarrow> Inl e
                 | Inr (props, offset'') \<Rightarrow> Inr (Object props, offset''))
              else if unat b = TYPES_A T_Date then
                (case getFloat64 buffer offset' of
                   Inl e \<Rightarrow> Inl e
                 | Inr x \<Rightarrow> Inr (Date (TimeClip x), offset' + 8))
              else Inr (value, offset')))"
| "readArray_A toString buffer len i offset items =
     (if i < len then
        (case readChunk_A toString buffer offset of
           Inl e \<Rightarrow> Inl e
         | Inr (item, offset') \<Rightarrow> readArray_A toString buffer len (i + 1) offset' (items @ [item]))
      else Inr (items, offset))"
| "readObject_A toString buffer len i offset props =
     (if i < len then
        (case readChunk_A toString buffer offset of
           Inl e \<Rightarrow> Inl e
         | Inr (key, offset') \<Rightarrow>
            (case readChunk_A toString buffer offset' of
               Inl e \<Rightarrow> Inl e
             | Inr (val, offset'') \<Rightarrow>
                 readObject_A toString buffer len (i + 1) offset''
                   (set_property props (ToPropertyKey toString key) val)))
      else Inr (props, offset))"
  by pat_completeness auto

text \<open>
  Every chunk that is read takes at least its type byte, so the loops over a count that
  comes from the buffer end: either the buffer runs out or the count does.
\<close>

lemma readLength_A_advances:
  "readLength_A buffer typeIndex offset = Inr (len, offset', val) \<Longrightarrow> offset \<le> offset'"
  by (auto simp: readLength_A_def split: if_splits sum.splits)

lemma readLength_A_composite:
  "readLength_A buffer 22 offset = Inr (len, offset', val) \<Longrightarrow>
   offset' = offset + 4 \<and> offset' \<le> length buffer"
  "readLength_A buffer 23 offset = Inr (len, offset', val) \<Longrightarrow>
   offset' = offset + 4 \<and> offset' \<le> length buffer"
  by (auto simp: readLength_A_def getUint32_def split: if_splits sum.splits)

lemma readChunk_A_advances:
  "readChunk_A_readArray_A_readObject_A_dom (Inl (toString, buffer, offset)) \<Longrightarrow>
   readChunk_A toString buffer offset = Inr (v, offset') \<Longrightarrow>
   offset < offset' \<and> offset < length buffer"
  "readChunk_A_readArray_A_readObject_A_dom (Inr (Inl (toString, buffer, len, i, offset, items))) \<Longrightarrow>
   readArray_A toString buffer len i offset items = Inr (vs, offset') \<Longrightarrow> offset \<le> offset'"
  "readChunk_A_readArray_A_readObject_A_dom (Inr (Inr (toString, buffer, len, i, offset, props))) \<Longrightarrow>
   readObject_A toString buffer len i offset props = Inr (ps, offset') \<Longrightarrow> offset \<le> offset'"
proof (induct toString buffer offset and toString buffer len i offset items
         and toString buffer len i offset props
       arbitrary: v offset' and vs offset' and ps offset'
       rule: readChunk_A_readArray_A_readObject_A.pinduct)
  case (1 toString buffer offset)
  show ?case
  proof (cases "getUint8 buffer offset")
    case (Inl e)
    with 1(4) show ?thesis by (simp add: readChunk_A.psimps [OF 1(1)])
  next
    case b: (Inr b)
    then have lt: "offset < length buffer"
      by (simp add: getUint8_def split: if_splits)
    show ?thesis
    proof (cases "readLength_A buffer (unat b) (offset + 1)")
      case (Inl e)
      with b 1(4) show ?thesis by (simp add: readChunk_A.psimps [OF 1(1)])
    next
      case (Inr r)
      obtain len o1 val where r: "r = (len, o1, val)" by (cases r)
      note h = Inr [unfolded r]
      have "offset + 1 \<le> o1" using readLength_A_advances [OF h] .
      moreover have "o1 \<le> offset'"
        using h 1(4) 1(2) [OF b h refl refl, of _ offset'] 1(3) [OF b h refl refl, of _ offset']
        by (auto simp add: readChunk_A.psimps [OF 1(1)] b split: if_splits sum.splits prod.splits)
      ultimately show ?thesis using lt by simp
    qed
  qed
next
  case (2 toString buffer len i offset items)
  from 2(4) show ?case
    apply (simp add: readArray_A.psimps [OF 2(1)] split: sum.splits prod.splits if_splits)
    using 2(2,3) apply fastforce
    done
next
  case (3 toString buffer len i offset props)
  show ?case
  proof (cases "i < len")
    case False
    with 3(5) show ?thesis by (simp add: readObject_A.psimps [OF 3(1)])
  next
    case True
    from 3(5) True obtain key o1 val o2 where
      k: "readChunk_A toString buffer offset = Inr (key, o1)" and
      v: "readChunk_A toString buffer o1 = Inr (val, o2)" and
      r: "readObject_A toString buffer len (i + 1) o2
            (set_property props (ToPropertyKey toString key) val) = Inr (ps, offset')"
      by (auto simp: readObject_A.psimps [OF 3(1)] split: sum.splits prod.splits)
    have "offset < o1" using 3(2) [OF True k] by simp
    moreover have "o1 < o2" using 3(3) [OF True k refl v] by simp
    moreover have "o2 \<le> offset'" using 3(4) [OF True k refl v refl r] by simp
    ultimately show ?thesis by simp
  qed
qed

termination readChunk_A
  apply (relation "measures
    [\<lambda>x. case x of
        Inl (toString, buffer, offset) \<Rightarrow> 2 * (length buffer - offset) + 1
      | Inr (Inl (toString, buffer, len, i, offset, items)) \<Rightarrow> 2 * (length buffer - offset) + 2
      | Inr (Inr (toString, buffer, len, i, offset, props)) \<Rightarrow> 2 * (length buffer - offset) + 3,
     \<lambda>x. case x of
        Inl (toString, buffer, offset) \<Rightarrow> 0
      | Inr (Inl (toString, buffer, len, i, offset, items)) \<Rightarrow> len - i
      | Inr (Inr (toString, buffer, len, i, offset, props)) \<Rightarrow> len - i]")
  subgoal by simp
  subgoal by (auto simp: getUint8_def split: if_splits dest!: readLength_A_composite)
  subgoal by (auto simp: getUint8_def split: if_splits dest!: readLength_A_composite)
  subgoal by simp
  subgoal by (auto dest!: readChunk_A_advances(1))
  subgoal by simp
  subgoal by (auto dest!: readChunk_A_advances(1))
  subgoal by (auto dest!: readChunk_A_advances(1))
  done

declare readChunk_A.simps [simp del] readArray_A.simps [simp del] readObject_A.simps [simp del]

subsection \<open>createChunk\<close>

text \<open>
  A chunk of the first implementation. Its \<^verbatim>\<open>value\<close> field holds the value itself, or
  for an array or an object the chunks of its elements or entries.
\<close>

datatype chunk_A =
  Chunk_A (byteLength_A: nat) (length_A: nat) (value_A: held_A) (subBuffer_A: "bytes option")
    (typeIndex_A: nat)
and held_A = Plain "value" | Chunks "chunk_A list"

fun plain :: "held_A \<Rightarrow> value" where
  "plain (Plain v) = v"
| "plain (Chunks cs) = Undefined"

definition typed_array_names :: "tname list" where
  "typed_array_names =
     [T_Int8Array, T_Int16Array, T_Int32Array, T_Uint8Array, T_Uint16Array, T_Uint32Array,
      T_Float32Array, T_Float64Array]"

lemma asArray_smaller: "x \<in> set (asArray v) \<Longrightarrow> size x < size v"
  by (cases v) (auto simp: less_Suc_eq_le size_list_estimation')

lemma asObject_smaller: "(k, x) \<in> set (asObject v) \<Longrightarrow> size x < size v"
proof (cases v)
  case (Object ps)
  assume "(k, x) \<in> set (asObject v)"
  with Object have "(k, x) \<in> set ps" by simp
  then have "size_prod (\<lambda>_. 0) size (k, x) \<le> size_list (size_prod (\<lambda>_. 0) size) ps"
    by (rule size_list_estimation') simp
  with Object show ?thesis by simp
qed simp_all

lemma asObject_positive: "(k, x) \<in> set (asObject v) \<Longrightarrow> 0 < size v"
  by (cases v) auto

function createChunk_A :: "value \<Rightarrow> nat \<Rightarrow> chunk_A" where
  "createChunk_A val typeIndex0 =
     (let typeIndex = (if typeIndex0 = 0 then typeIndexOf val else typeIndex0) in
      if typeIndex = TYPES_A T_Null then Chunk_A 1 0 (Plain val) None typeIndex
      else if typeIndex = TYPES_A T_Boolean then Chunk_A (1 + 1) 0 (Plain val) None typeIndex
      else if typeIndex = TYPES_A T_Number then Chunk_A (1 + 8) 0 (Plain val) None typeIndex
      else if typeIndex \<in> TYPES_A ` set typed_array_names then
        Chunk_A (1 + 4 + byteLength val) (byteLength val) (Plain val) None typeIndex
      else if typeIndex = TYPES_A T_String then
        (let subBuffer = TextEncoder_encode (asString val) in
         Chunk_A (1 + 4 + length subBuffer) (length subBuffer) (Plain val) (Some subBuffer)
           typeIndex)
      else if typeIndex = TYPES_A T_Array then
        (let chunks = map (\<lambda>x. createChunk_A x 0) (asArray val) in
         Chunk_A (1 + 4 + sum_list (map byteLength_A chunks)) (length (asArray val))
           (Chunks chunks) None typeIndex)
      else if typeIndex = TYPES_A T_Object then
        (let chunks =
           concat (map (\<lambda>(s, x). [createChunk_A (Str s) (TYPES_A T_String), createChunk_A x 0])
             (asObject val)) in
         Chunk_A (1 + 4 + sum_list (map byteLength_A chunks)) (length (asObject val))
           (Chunks chunks) None typeIndex)
      else if typeIndex = TYPES_A T_Date then Chunk_A (1 + 8) 0 (Plain val) None typeIndex
      else Chunk_A 0 0 (Plain val) None typeIndex)"
  by pat_completeness auto
termination
  by (relation "measure (\<lambda>(val, typeIndex0). size val)")
    (auto simp: asArray_smaller asObject_smaller asObject_positive)

declare createChunk_A.simps [simp del]

subsection \<open>writeChunk\<close>

text \<open>
  \<^verbatim>\<open>writeChunk\<close> returns the offset and changes the buffer in place; here it returns
  both. The source's \<^verbatim>\<open>new Uint8Array(value.buffer)\<close> is the whole buffer under the typed
  array, whatever part of it the array shows.
\<close>

fun writeChunk_A :: "chunk_A \<Rightarrow> bytes \<Rightarrow> nat \<Rightarrow> error + (bytes \<times> nat)"
  and writeChunks_A :: "chunk_A list \<Rightarrow> bytes \<Rightarrow> nat \<Rightarrow> error + (bytes \<times> nat)"
where
  "writeChunk_A (Chunk_A nbytes len val subBuffer typeIndex) buffer offset =
     (case setUint8 buffer offset (of_nat typeIndex) of
        Inl e \<Rightarrow> Inl e
      | Inr buffer \<Rightarrow>
          if typeIndex = TYPES_A T_Null then Inr (buffer, offset + 1)
          else if typeIndex = TYPES_A T_Boolean then
            (case setUint8 buffer (offset + 1) (if truthy (plain val) then 0xff else 0x00) of
               Inl e \<Rightarrow> Inl e
             | Inr buffer \<Rightarrow> Inr (buffer, offset + 1 + 1))
          else if typeIndex = TYPES_A T_Number then
            (case setFloat64 buffer (offset + 1) (asNumber (plain val)) of
               Inl e \<Rightarrow> Inl e
             | Inr buffer \<Rightarrow> Inr (buffer, offset + 1 + 8))
          else if typeIndex \<in> TYPES_A ` set typed_array_names then
            (case setUint32 buffer (offset + 1) len of
               Inl e \<Rightarrow> Inl e
             | Inr buffer \<Rightarrow>
                (case Uint8Array_set buffer (buffer_of (plain val)) (offset + 1 + 4) of
                   Inl e \<Rightarrow> Inl e
                 | Inr buffer \<Rightarrow> Inr (buffer, offset + 1 + 4 + len)))
          else if typeIndex = TYPES_A T_String then
            (case setUint32 buffer (offset + 1) len of
               Inl e \<Rightarrow> Inl e
             | Inr buffer \<Rightarrow>
                (case Uint8Array_set buffer (case subBuffer of None \<Rightarrow> [] | Some sub \<Rightarrow> sub)
                        (offset + 1 + 4) of
                   Inl e \<Rightarrow> Inl e
                 | Inr buffer \<Rightarrow> Inr (buffer, offset + 1 + 4 + len)))
          else if typeIndex = TYPES_A T_Array \<or> typeIndex = TYPES_A T_Object then
            (case setUint32 buffer (offset + 1) len of
               Inl e \<Rightarrow> Inl e
             | Inr buffer \<Rightarrow>
                (case val of
                   Chunks chunks \<Rightarrow> writeChunks_A chunks buffer (offset + 1 + 4)
                 | Plain v \<Rightarrow> Inr (buffer, offset + 1 + 4)))
          else if typeIndex = TYPES_A T_Date then
            (case setFloat64 buffer (offset + 1) (getTime (plain val)) of
               Inl e \<Rightarrow> Inl e
             | Inr buffer \<Rightarrow> Inr (buffer, offset + 1 + 8))
          else Inr (buffer, offset + 1))"
| "writeChunks_A [] buffer offset = Inr (buffer, offset)"
| "writeChunks_A (chunk # chunks) buffer offset =
     (case writeChunk_A chunk buffer offset of
        Inl e \<Rightarrow> Inl e
      | Inr (buffer, offset) \<Rightarrow> writeChunks_A chunks buffer offset)"

subsection \<open>serialize and deserialize\<close>

definition serialize_A :: "value \<Rightarrow> error + bytes" where
  "serialize_A val =
     (let chunk = createChunk_A val 0; buffer = ArrayBuffer (byteLength_A chunk) in
      case writeChunk_A chunk buffer 0 of
        Inl e \<Rightarrow> Inl e
      | Inr (buffer, offset) \<Rightarrow> Inr buffer)"

definition deserialize_A :: "(value \<Rightarrow> jsstring) \<Rightarrow> bytes \<Rightarrow> error + value" where
  "deserialize_A toString buffer =
     (case readChunk_A toString buffer 0 of
        Inl e \<Rightarrow> Inl e
      | Inr (val, offset) \<Rightarrow> Inr val)"

section \<open>The second implementation\<close>

fun TYPES_B :: "tname \<Rightarrow> nat" where
  "TYPES_B T_Null = 1"
| "TYPES_B T_Boolean = 2"
| "TYPES_B T_Number = 3"
| "TYPES_B T_Date = 4"
| "TYPES_B T_String = 5"
| "TYPES_B T_Array = 6"
| "TYPES_B T_Object = 7"
| "TYPES_B T_Int8Array = 10"
| "TYPES_B T_Int16Array = 11"
| "TYPES_B T_Int32Array = 12"
| "TYPES_B T_Uint8Array = 13"
| "TYPES_B T_Uint16Array = 14"
| "TYPES_B T_Uint32Array = 15"
| "TYPES_B T_Float32Array = 16"
| "TYPES_B T_Float64Array = 17"

text \<open>The table from type code to typed-array constructor; \<open>None\<close> where it has no entry.\<close>

definition TYPED_ARRAY_TYPES :: "nat \<Rightarrow> kind option" where
  "TYPED_ARRAY_TYPES =
     [TYPES_B T_Int8Array \<mapsto> Int8, TYPES_B T_Int16Array \<mapsto> Int16,
      TYPES_B T_Int32Array \<mapsto> Int32, TYPES_B T_Uint8Array \<mapsto> Uint8,
      TYPES_B T_Uint16Array \<mapsto> Uint16, TYPES_B T_Uint32Array \<mapsto> Uint32,
      TYPES_B T_Float32Array \<mapsto> Float32, TYPES_B T_Float64Array \<mapsto> Float64]"

fun getTypeCode :: "value \<Rightarrow> nat" where
  "getTypeCode Null = TYPES_B T_Null"
| "getTypeCode Undefined = TYPES_B T_Null"
| "getTypeCode (Boolean b) = TYPES_B T_Boolean"
| "getTypeCode (Number x) = TYPES_B T_Number"
| "getTypeCode (Str s) = TYPES_B T_String"
| "getTypeCode (Date t) = TYPES_B T_Date"
| "getTypeCode (Array vs) = TYPES_B T_Array"
| "getTypeCode (TypedArray Int8 front shown rest) = TYPES_B T_Int8Array"
| "getTypeCode (TypedArray Int16 front shown rest) = TYPES_B T_Int16Array"
| "getTypeCode (TypedArray Int32 front shown rest) = TYPES_B T_Int32Array"
| "getTypeCode (TypedArray Uint8 front shown rest) = TYPES_B T_Uint8Array"
| "getTypeCode (TypedArray Uint16 front shown rest) = TYPES_B T_Uint16Array"
| "getTypeCode (TypedArray Uint32 front shown rest) = TYPES_B T_Uint32Array"
| "getTypeCode (TypedArray Float32 front shown rest) = TYPES_B T_Float32Array"
| "getTypeCode (TypedArray Float64 front shown rest) = TYPES_B T_Float64Array"
| "getTypeCode (Object ps) = TYPES_B T_Object"
| "getTypeCode Function = TYPES_B T_Null"

subsection \<open>readChunk\<close>

function readChunk_B :: "(value \<Rightarrow> jsstring) \<Rightarrow> bytes \<Rightarrow> nat \<Rightarrow> error + (value \<times> nat)"
  and readArray_B ::
    "(value \<Rightarrow> jsstring) \<Rightarrow> bytes \<Rightarrow> nat \<Rightarrow> nat \<Rightarrow> nat \<Rightarrow> value list \<Rightarrow> error + (value list \<times> nat)"
  and readObject_B ::
    "(value \<Rightarrow> jsstring) \<Rightarrow> bytes \<Rightarrow> nat \<Rightarrow> nat \<Rightarrow> nat \<Rightarrow> (jsstring \<times> value) list
       \<Rightarrow> error + ((jsstring \<times> value) list \<times> nat)"
where
  "readChunk_B toString buffer offset =
     (case getUint8 buffer offset of
        Inl e \<Rightarrow> Inl e
      | Inr b \<Rightarrow>
          if unat b = TYPES_B T_Null then Inr (Null, offset + 1)
          else if unat b = TYPES_B T_Boolean then
            (case getUint8 buffer (offset + 1) of
               Inl e \<Rightarrow> Inl e
             | Inr x \<Rightarrow> Inr (Boolean (x \<noteq> 0), offset + 1 + 1))
          else if unat b = TYPES_B T_Number then
            (case getFloat64 buffer (offset + 1) of
               Inl e \<Rightarrow> Inl e
             | Inr x \<Rightarrow> Inr (Number x, offset + 1 + 8))
          else if unat b = TYPES_B T_Date then
            (case getFloat64 buffer (offset + 1) of
               Inl e \<Rightarrow> Inl e
             | Inr x \<Rightarrow> Inr (Date (TimeClip x), offset + 1 + 8))
          else
            (case getUint32 buffer (offset + 1) of
               Inl e \<Rightarrow> Inl e
             | Inr len \<Rightarrow>
                 if TYPED_ARRAY_TYPES (unat b) \<noteq> None \<or> unat b = TYPES_B T_String then
                   (let sub = slice buffer (offset + 1 + 4) (offset + 1 + 4 + len) in
                    if unat b = TYPES_B T_String
                    then Inr (Str (TextDecoder_decode sub), offset + 1 + 4 + len)
                    else
                      (case new_TypedArray (the (TYPED_ARRAY_TYPES (unat b))) sub of
                         Inl e \<Rightarrow> Inl e
                       | Inr arr \<Rightarrow> Inr (arr, offset + 1 + 4 + len)))
                 else if unat b = TYPES_B T_Array then
                   (case readArray_B toString buffer len 0 (offset + 1 + 4) [] of
                      Inl e \<Rightarrow> Inl e
                    | Inr (arr, offset') \<Rightarrow> Inr (Array arr, offset'))
                 else if unat b = TYPES_B T_Object then
                   (case readObject_B toString buffer len 0 (offset + 1 + 4) [] of
                      Inl e \<Rightarrow> Inl e
                    | Inr (obj, offset') \<Rightarrow> Inr (Object obj, offset'))
                 else Inl (UnknownTypeCode (unat b))))"
| "readArray_B toString buffer len i offset arr =
     (if i < len then
        (case readChunk_B toString buffer offset of
           Inl e \<Rightarrow> Inl e
         | Inr (val, offset') \<Rightarrow> readArray_B toString buffer len (i + 1) offset' (arr @ [val]))
      else Inr (arr, offset))"
| "readObject_B toString buffer len i offset obj =
     (if i < len then
        (case readChunk_B toString buffer offset of
           Inl e \<Rightarrow> Inl e
         | Inr (key, offset') \<Rightarrow>
            (case readChunk_B toString buffer offset' of
               Inl e \<Rightarrow> Inl e
             | Inr (val, offset'') \<Rightarrow>
                 readObject_B toString buffer len (i + 1) offset''
                   (set_property obj (ToPropertyKey toString key) val)))
      else Inr (obj, offset))"
  by pat_completeness auto

lemma readChunk_B_advances:
  "readChunk_B_readArray_B_readObject_B_dom (Inl (toString, buffer, offset)) \<Longrightarrow>
   readChunk_B toString buffer offset = Inr (v, offset') \<Longrightarrow>
   offset < offset' \<and> offset < length buffer"
  "readChunk_B_readArray_B_readObject_B_dom (Inr (Inl (toString, buffer, len, i, offset, arr))) \<Longrightarrow>
   readArray_B toString buffer len i offset arr = Inr (vs, offset') \<Longrightarrow> offset \<le> offset'"
  "readChunk_B_readArray_B_readObject_B_dom (Inr (Inr (toString, buffer, len, i, offset, obj))) \<Longrightarrow>
   readObject_B toString buffer len i offset obj = Inr (ps, offset') \<Longrightarrow> offset \<le> offset'"
proof (induct toString buffer offset and toString buffer len i offset arr
         and toString buffer len i offset obj
       arbitrary: v offset' and vs offset' and ps offset'
       rule: readChunk_B_readArray_B_readObject_B.pinduct)
  case (1 toString buffer offset)
  show ?case
  proof (cases "getUint8 buffer offset")
    case (Inl e)
    with 1(4) show ?thesis by (simp add: readChunk_B.psimps [OF 1(1)])
  next
    case b: (Inr b)
    then have lt: "offset < length buffer"
      by (simp add: getUint8_def split: if_splits)
    show ?thesis
    proof (cases "getUint32 buffer (offset + 1)")
      case (Inl e)
      with b 1(4) have "offset < offset'"
        by (auto simp add: readChunk_B.psimps [OF 1(1)] split: if_splits sum.splits)
      with lt show ?thesis by simp
    next
      case h: (Inr len)
      have "offset < offset'"
        using h 1(4) 1(2) [OF b _ _ _ _ h, of _ offset'] 1(3) [OF b _ _ _ _ h, of _ offset']
        by (auto simp add: readChunk_B.psimps [OF 1(1)] b Let_def
              split: if_splits sum.splits prod.splits)
      with lt show ?thesis by simp
    qed
  qed
next
  case (2 toString buffer len i offset arr)
  from 2(4) show ?case
    apply (simp add: readArray_B.psimps [OF 2(1)] split: sum.splits prod.splits if_splits)
    using 2(2,3) apply fastforce
    done
next
  case (3 toString buffer len i offset obj)
  show ?case
  proof (cases "i < len")
    case False
    with 3(5) show ?thesis by (simp add: readObject_B.psimps [OF 3(1)])
  next
    case True
    from 3(5) True obtain key o1 val o2 where
      k: "readChunk_B toString buffer offset = Inr (key, o1)" and
      v: "readChunk_B toString buffer o1 = Inr (val, o2)" and
      r: "readObject_B toString buffer len (i + 1) o2
            (set_property obj (ToPropertyKey toString key) val) = Inr (ps, offset')"
      by (auto simp: readObject_B.psimps [OF 3(1)] split: sum.splits prod.splits)
    have "offset < o1" using 3(2) [OF True k] by simp
    moreover have "o1 < o2" using 3(3) [OF True k refl v] by simp
    moreover have "o2 \<le> offset'" using 3(4) [OF True k refl v refl r] by simp
    ultimately show ?thesis by simp
  qed
qed

termination readChunk_B
  apply (relation "measures
    [\<lambda>x. case x of
        Inl (toString, buffer, offset) \<Rightarrow> 2 * (length buffer - offset) + 1
      | Inr (Inl (toString, buffer, len, i, offset, arr)) \<Rightarrow> 2 * (length buffer - offset) + 2
      | Inr (Inr (toString, buffer, len, i, offset, obj)) \<Rightarrow> 2 * (length buffer - offset) + 3,
     \<lambda>x. case x of
        Inl (toString, buffer, offset) \<Rightarrow> 0
      | Inr (Inl (toString, buffer, len, i, offset, arr)) \<Rightarrow> len - i
      | Inr (Inr (toString, buffer, len, i, offset, obj)) \<Rightarrow> len - i]")
  subgoal by simp
  subgoal by (auto simp: getUint8_def getUint32_def split: if_splits)
  subgoal by (auto simp: getUint8_def getUint32_def split: if_splits)
  subgoal by simp
  subgoal by (auto dest!: readChunk_B_advances(1))
  subgoal by simp
  subgoal by (auto dest!: readChunk_B_advances(1))
  subgoal by (auto dest!: readChunk_B_advances(1))
  done

declare readChunk_B.simps [simp del] readArray_B.simps [simp del] readObject_B.simps [simp del]

subsection \<open>createChunk\<close>

text \<open>
  A chunk of the second implementation: \<^verbatim>\<open>data\<close> is absent, bytes or the chunks below it;
  \<^verbatim>\<open>value\<close> is absent, the integer literal of a boolean or a double.
\<close>

datatype field_B = Absent | Literal nat | Double "64 word"

datatype chunk_B =
  Chunk_B (type_B: nat) (length_B: nat) (data_B: data_B) (value_B: field_B)
and data_B = NoData | Bytes bytes | Subs "chunk_B list"

text \<open>An exception in a \<^verbatim>\<open>map\<close> or a loop ends it: the first error is the result.\<close>

fun sequence :: "(error + 'a) list \<Rightarrow> error + 'a list" where
  "sequence [] = Inr []"
| "sequence (Inl e # rs) = Inl e"
| "sequence (Inr x # rs) = (case sequence rs of Inl e \<Rightarrow> Inl e | Inr xs \<Rightarrow> Inr (x # xs))"

text \<open>\<^verbatim>\<open>new Uint8Array(arr.buffer, arr.byteOffset, arr.byteLength)\<close>\<close>

definition Uint8Array_view :: "value \<Rightarrow> bytes" where
  "Uint8Array_view arr = take (byteLength arr) (drop (byteOffset arr) (buffer_of arr))"

function createChunk_B :: "value \<Rightarrow> error + chunk_B" where
  "createChunk_B val =
     (let type = getTypeCode val in
      if type = TYPES_B T_Null then Inr (Chunk_B type 0 NoData Absent)
      else if type = TYPES_B T_Boolean then
        Inr (Chunk_B type 0 NoData (Literal (if truthy val then 0xff else 0x00)))
      else if type = TYPES_B T_Number then Inr (Chunk_B type 0 NoData (Double (asNumber val)))
      else if type = TYPES_B T_Date then Inr (Chunk_B type 0 NoData (Double (getTime val)))
      else if type = TYPES_B T_String then
        (let data = TextEncoder_encode (asString val) in
         Inr (Chunk_B type (length data) (Bytes data) Absent))
      else if TYPED_ARRAY_TYPES type \<noteq> None then
        Inr (Chunk_B type (byteLength val) (Bytes (Uint8Array_view val)) Absent)
      else if type = TYPES_B T_Array then
        (case sequence (map createChunk_B (asArray val)) of
           Inl e \<Rightarrow> Inl e
         | Inr items \<Rightarrow> Inr (Chunk_B type (length items) (Subs items) Absent))
      else if type = TYPES_B T_Object then
        (case sequence (concat (map (\<lambda>(key, x). [createChunk_B (Str key), createChunk_B x])
                                  (asObject val))) of
           Inl e \<Rightarrow> Inl e
         | Inr entries \<Rightarrow> Inr (Chunk_B type (length entries div 2) (Subs entries) Absent))
      else Inl UnsupportedValue)"
  by pat_completeness auto
termination
  by (relation "measure size") (auto simp: asArray_smaller asObject_smaller asObject_positive)

declare createChunk_B.simps [simp del]

subsection \<open>writeChunk and calculateSize\<close>

fun as_uint8 :: "field_B \<Rightarrow> byte" where
  "as_uint8 (Literal n) = of_nat n"
| "as_uint8 _ = 0"

fun as_float64 :: "field_B \<Rightarrow> 64 word" where
  "as_float64 (Double x) = x"
| "as_float64 _ = NaN"

fun as_bytes :: "data_B \<Rightarrow> bytes" where
  "as_bytes (Bytes bs) = bs"
| "as_bytes _ = []"

fun writeChunk_B :: "chunk_B \<Rightarrow> bytes \<Rightarrow> nat \<Rightarrow> error + (bytes \<times> nat)"
  and writeChunks_B :: "chunk_B list \<Rightarrow> bytes \<Rightarrow> nat \<Rightarrow> error + (bytes \<times> nat)"
where
  "writeChunk_B (Chunk_B type len data val) buffer offset =
     (case setUint8 buffer offset (of_nat type) of
        Inl e \<Rightarrow> Inl e
      | Inr buffer \<Rightarrow>
          if type = TYPES_B T_Null then Inr (buffer, offset + 1)
          else if type = TYPES_B T_Boolean then
            (case setUint8 buffer (offset + 1) (as_uint8 val) of
               Inl e \<Rightarrow> Inl e
             | Inr buffer \<Rightarrow> Inr (buffer, offset + 1 + 1))
          else if type = TYPES_B T_Number then
            (case setFloat64 buffer (offset + 1) (as_float64 val) of
               Inl e \<Rightarrow> Inl e
             | Inr buffer \<Rightarrow> Inr (buffer, offset + 1 + 8))
          else if type = TYPES_B T_Date then
            (case setFloat64 buffer (offset + 1) (as_float64 val) of
               Inl e \<Rightarrow> Inl e
             | Inr buffer \<Rightarrow> Inr (buffer, offset + 1 + 8))
          else
            (case setUint32 buffer (offset + 1) len of
               Inl e \<Rightarrow> Inl e
             | Inr buffer \<Rightarrow>
                 if TYPED_ARRAY_TYPES type \<noteq> None \<or> type = TYPES_B T_String then
                   (case Uint8Array_set buffer (as_bytes data) (offset + 1 + 4) of
                      Inl e \<Rightarrow> Inl e
                    | Inr buffer \<Rightarrow> Inr (buffer, offset + 1 + 4 + len))
                 else
                   (case data of
                      Subs subs \<Rightarrow> writeChunks_B subs buffer (offset + 1 + 4)
                    | _ \<Rightarrow> Inr (buffer, offset + 1 + 4))))"
| "writeChunks_B [] buffer offset = Inr (buffer, offset)"
| "writeChunks_B (sub # subs) buffer offset =
     (case writeChunk_B sub buffer offset of
        Inl e \<Rightarrow> Inl e
      | Inr (buffer, offset) \<Rightarrow> writeChunks_B subs buffer offset)"

fun calculateSize :: "chunk_B \<Rightarrow> nat"
  and calculateSizes :: "chunk_B list \<Rightarrow> nat \<Rightarrow> nat"
where
  "calculateSize (Chunk_B type len data val) =
     (if type = TYPES_B T_Null then 1
      else if type = TYPES_B T_Boolean then 2
      else if type = TYPES_B T_Number \<or> type = TYPES_B T_Date then 9
      else if TYPED_ARRAY_TYPES type \<noteq> None \<or> type = TYPES_B T_String then 1 + 4 + len
      else if type = TYPES_B T_Array \<or> type = TYPES_B T_Object then
        (case data of Subs subs \<Rightarrow> calculateSizes subs (1 + 4) | _ \<Rightarrow> 1 + 4)
      else 0)"
| "calculateSizes [] sz = sz"
| "calculateSizes (sub # subs) sz = calculateSizes subs (sz + calculateSize sub)"

subsection \<open>serialize and deserialize\<close>

definition serialize_B :: "value \<Rightarrow> error + bytes" where
  "serialize_B val =
     (case createChunk_B val of
        Inl e \<Rightarrow> Inl e
      | Inr chunk \<Rightarrow>
         (let sz = calculateSize chunk; buffer = ArrayBuffer sz in
          case writeChunk_B chunk buffer 0 of
            Inl e \<Rightarrow> Inl e
          | Inr (buffer, offset) \<Rightarrow> Inr buffer))"

definition deserialize_B :: "(value \<Rightarrow> jsstring) \<Rightarrow> bytes \<Rightarrow> error + value" where
  "deserialize_B toString buffer =
     (if length buffer = 0 then Inl EmptyBuffer
      else case readChunk_B toString buffer 0 of
        Inl e \<Rightarrow> Inl e
      | Inr (val, offset) \<Rightarrow> Inr val)"

section \<open>The wire format and the supported values\<close>

text \<open>
  The format of the specification, as a function from a value to its bytes: a type byte,
  then nothing, one byte or a big-endian double for the scalars, a big-endian 32-bit length
  and that many bytes for a string or a typed array, a big-endian 32-bit count and that
  many chunks for an array, and a count and that many pairs of a String chunk and a chunk
  for an object. \<open>T\<close> is the table of type codes and \<open>payload\<close> gives the bytes of a
  typed array; the two implementations differ in both.
\<close>

fun tname_of :: "kind \<Rightarrow> tname" where
  "tname_of Int8 = T_Int8Array"
| "tname_of Int16 = T_Int16Array"
| "tname_of Int32 = T_Int32Array"
| "tname_of Uint8 = T_Uint8Array"
| "tname_of Uint16 = T_Uint16Array"
| "tname_of Uint32 = T_Uint32Array"
| "tname_of Float32 = T_Float32Array"
| "tname_of Float64 = T_Float64Array"

definition wire_bytes :: "nat \<Rightarrow> bytes \<Rightarrow> bytes" where
  "wire_bytes type bs = of_nat type # be32 (of_nat (length bs)) @ bs"

fun wire :: "(tname \<Rightarrow> nat) \<Rightarrow> (value \<Rightarrow> bytes) \<Rightarrow> value \<Rightarrow> bytes" where
  "wire T payload Undefined = [of_nat (T T_Null)]"
| "wire T payload Function = [of_nat (T T_Null)]"
| "wire T payload Null = [of_nat (T T_Null)]"
| "wire T payload (Boolean b) = [of_nat (T T_Boolean), if b then 0xFF else 0x00]"
| "wire T payload (Number x) = of_nat (T T_Number) # be64 x"
| "wire T payload (Date t) = of_nat (T T_Date) # be64 t"
| "wire T payload (Str s) = wire_bytes (T T_String) (TextEncoder_encode s)"
| "wire T payload (TypedArray k front shown rest) =
     wire_bytes (T (tname_of k)) (payload (TypedArray k front shown rest))"
| "wire T payload (Array vs) =
     of_nat (T T_Array) # be32 (of_nat (length vs)) @ concat (map (wire T payload) vs)"
| "wire T payload (Object ps) =
     of_nat (T T_Object) # be32 (of_nat (length ps)) @
     concat (map (\<lambda>p. wire_bytes (T T_String) (TextEncoder_encode (fst p)) @ wire T payload (snd p)) ps)"

text \<open>
  The bytes of a typed array on the wire. The second implementation writes the part that
  the array shows. The first writes the buffer under the array from its start, of which
  the first \<^verbatim>\<open>byteLength\<close> bytes are left once the next chunk is written.
\<close>

definition payload_A :: "value \<Rightarrow> bytes" where
  "payload_A arr = take (byteLength arr) (buffer_of arr)"

definition wire_A :: "value \<Rightarrow> bytes" where
  "wire_A = wire TYPES_A payload_A"

definition wire_B :: "value \<Rightarrow> bytes" where
  "wire_B = wire TYPES_B Uint8Array_view"

text \<open>
  What a decoder makes of the bytes of a value: a string goes through the encoder and the
  decoder, a time value through \<open>TimeClip\<close>, a typed array comes back over a buffer of
  its own, and the properties of an object are assigned one after the other.
\<close>

definition transcode :: "jsstring \<Rightarrow> jsstring" where
  "transcode s = TextDecoder_decode (TextEncoder_encode s)"

definition assign_all ::
  "(jsstring \<times> value) list \<Rightarrow> (jsstring \<times> value) list \<Rightarrow> (jsstring \<times> value) list"
where
  "assign_all obj ps = foldl (\<lambda>obj p. set_property obj (fst p) (snd p)) obj ps"

fun decoded :: "(value \<Rightarrow> bytes) \<Rightarrow> value \<Rightarrow> value" where
  "decoded payload Undefined = Null"
| "decoded payload Function = Null"
| "decoded payload Null = Null"
| "decoded payload (Boolean b) = Boolean b"
| "decoded payload (Number x) = Number x"
| "decoded payload (Date t) = Date (TimeClip t)"
| "decoded payload (Str s) = Str (transcode s)"
| "decoded payload (TypedArray k front shown rest) =
     TypedArray k [] (payload (TypedArray k front shown rest)) []"
| "decoded payload (Array vs) = Array (map (decoded payload) vs)"
| "decoded payload (Object ps) =
     Object (assign_all [] (map (\<lambda>p. (transcode (fst p), decoded payload (snd p))) ps))"

text \<open>
  What every value of the platform satisfies: the bytes a typed array shows are whole
  elements, a time value is one that \<open>TimeClip\<close> leaves alone, and the own properties of
  an object have distinct keys, the array indices first and in ascending order.
\<close>

definition precedes :: "jsstring \<Rightarrow> jsstring \<Rightarrow> bool" where
  "precedes k k' =
     (case array_index k' of
        None \<Rightarrow> True
      | Some n \<Rightarrow> (case array_index k of None \<Rightarrow> False | Some m \<Rightarrow> m < n))"

fun key_order :: "jsstring list \<Rightarrow> bool" where
  "key_order [] = True"
| "key_order (k # ks) = (list_all (precedes k) ks \<and> key_order ks)"

fun js_value :: "value \<Rightarrow> bool" where
  "js_value (TypedArray k front shown rest) = (length shown mod BYTES_PER_ELEMENT k = 0)"
| "js_value (Date t) = (TimeClip t = t)"
| "js_value (Array vs) = list_all js_value vs"
| "js_value (Object ps) =
     (distinct (map fst ps) \<and> key_order (map fst ps) \<and> list_all (\<lambda>p. js_value (snd p)) ps)"
| "js_value v = True"

text \<open>Every length and count of the value fits the four bytes the format has for it.\<close>

fun fits :: "value \<Rightarrow> bool" where
  "fits (Str s) = (length (TextEncoder_encode s) < 2 ^ 32)"
| "fits (TypedArray k front shown rest) = (length shown < 2 ^ 32)"
| "fits (Array vs) = (length vs < 2 ^ 32 \<and> list_all fits vs)"
| "fits (Object ps) =
     (length ps < 2 ^ 32 \<and>
      list_all (\<lambda>p. length (TextEncoder_encode (fst p)) < 2 ^ 32 \<and> fits (snd p)) ps)"
| "fits v = True"

text \<open>
  The strings that the encoder and the decoder return unchanged: every surrogate is half
  of a pair, and the first code unit is not U+FEFF.
\<close>

fun well_formed_utf16 :: "jsstring \<Rightarrow> bool" where
  "well_formed_utf16 [] = True"
| "well_formed_utf16 [u] = (\<not> is_high_surrogate u \<and> \<not> is_low_surrogate u)"
| "well_formed_utf16 (u # l # us) =
     (if is_high_surrogate u then is_low_surrogate l \<and> well_formed_utf16 us
      else \<not> is_low_surrogate u \<and> well_formed_utf16 (l # us))"

definition no_BOM :: "jsstring \<Rightarrow> bool" where
  "no_BOM s = (case s of [] \<Rightarrow> True | u # us \<Rightarrow> u \<noteq> 0xFEFF)"


definition plain_text :: "jsstring \<Rightarrow> bool" where
  "plain_text s = (well_formed_utf16 s \<and> no_BOM s)"

text \<open>
  The values whose strings and keys are plain text and none of whose keys is
  \<^verbatim>\<open>__proto__\<close>.
\<close>

fun plain_keys :: "value \<Rightarrow> bool" where
  "plain_keys (Str s) = plain_text s"
| "plain_keys (Array vs) = list_all plain_keys vs"
| "plain_keys (Object ps) =
     list_all (\<lambda>p. plain_text (fst p) \<and> fst p \<noteq> proto_key \<and> plain_keys (snd p)) ps"
| "plain_keys v = True"

text \<open>Every typed array of the value shows its buffer from the first byte to the last.\<close>

fun whole_buffers :: "value \<Rightarrow> bool" where
  "whole_buffers (TypedArray k front shown rest) = (front = [] \<and> rest = [])"
| "whole_buffers (Array vs) = list_all whole_buffers vs"
| "whole_buffers (Object ps) = list_all (\<lambda>p. whole_buffers (snd p)) ps"
| "whole_buffers v = True"

text \<open>
  Deep equality, and the loss the specification allows: \<^verbatim>\<open>undefined\<close> and functions
  become \<open>Null\<close>. Two typed arrays are equal when they are of one kind and show the same
  bytes; two objects when they have the same keys in the same order with equal values.
\<close>

fun lossy :: "value \<Rightarrow> value" where
  "lossy Undefined = Null"
| "lossy Function = Null"
| "lossy (Array vs) = Array (map lossy vs)"
| "lossy (Object ps) = Object (map (\<lambda>p. (fst p, lossy (snd p))) ps)"
| "lossy v = v"

fun deep_equal :: "value \<Rightarrow> value \<Rightarrow> bool" where
  "deep_equal (TypedArray k front shown rest) w =
     (case w of TypedArray k' front' shown' rest' \<Rightarrow> k = k' \<and> shown = shown' | _ \<Rightarrow> False)"
| "deep_equal (Array vs) w =
     (case w of Array ws \<Rightarrow> list_all2 deep_equal vs ws | _ \<Rightarrow> False)"
| "deep_equal (Object ps) w =
     (case w of
        Object qs \<Rightarrow> list_all2 (\<lambda>p q. fst p = fst q \<and> deep_equal (snd p) (snd q)) ps qs
      | _ \<Rightarrow> False)"
| "deep_equal v w = (v = w)"

definition scalar :: "nat \<Rightarrow> bool" where
  "scalar c = (c < 0x110000 \<and> \<not> (0xD800 \<le> c \<and> c \<le> 0xDFFF))"


section \<open>Strings through the encoder and the decoder\<close>

lemma unat_byte: "n < 256 \<Longrightarrow> unat (of_nat n :: 8 word) = n"
  by (simp add: unat_of_nat)

lemma div_4096: "(c::nat) div 0x1000 = c div 0x40 div 0x40"
  by (simp add: div_mult2_eq)

lemma div_262144: "(c::nat) div 0x40000 = c div 0x40 div 0x40 div 0x40"
  by (simp add: div_mult2_eq)

lemma surrogate_div:
  "\<not> (0xD800 \<le> (c::nat) \<and> c \<le> 0xDFFF) \<Longrightarrow> \<not> (0x360 \<le> c div 0x40 \<and> c div 0x40 < 0x380)"
  by (simp add: less_eq_div_iff_mult_less_eq div_less_iff_less_mult) linarith

lemma mod_drop: "k mod m = 0 \<Longrightarrow> x < m \<Longrightarrow> (k + x) mod m = (x::nat)"
  by (metis add_cancel_right_left mod_add_left_eq mod_less)

lemma utf8_cont_step:
  assumes "m < 0x40" "lo \<le> 0x80 + m" "0x80 + m \<le> hi"
  shows "utf8_cont n cp lo hi (of_nat (0x80 + m) # bs) =
    (if n \<le> 1 then (cp * 0x40 + m) # utf8_start bs
     else utf8_cont (n - 1) (cp * 0x40 + m) 0x80 0xBF bs)"
proof -
  have b: "unat (of_nat (0x80 + m) :: 8 word) = 0x80 + m"
    by (rule unat_byte) (use assms in simp)
  have f: "(0x80 + m) mod 0x40 = m" using assms by (intro mod_drop) simp_all
  show ?thesis using assms(2,3) by (simp only: utf8_cont.simps b f) simp
qed

lemma utf8_lead_step:
  assumes "0xC2 \<le> l" "l \<le> 0xF4"
  shows "utf8_start (of_nat l # bs) =
    (if l \<le> 0xDF then utf8_cont 1 (l mod 0x20) 0x80 0xBF bs
     else if l \<le> 0xEF then
        utf8_cont 2 (l mod 0x10) (if l = 0xE0 then 0xA0 else 0x80) (if l = 0xED then 0x9F else 0xBF) bs
     else utf8_cont 3 (l mod 0x08) (if l = 0xF0 then 0x90 else 0x80) (if l = 0xF4 then 0x8F else 0xBF) bs)"
proof -
  have b: "unat (of_nat l :: 8 word) = l"
    by (rule unat_byte) (use assms in simp)
  show ?thesis using assms by (simp only: utf8_start.simps b) simp
qed

lemma utf8_start_1:
  assumes "c < 0x80"
  shows "utf8_start (utf8_bytes c @ bs) = c # utf8_start bs"
  using assms by (simp add: utf8_bytes_def unat_byte)

lemma utf8_start_2:
  assumes "0x80 \<le> c" "c < 0x800"
  shows "utf8_start (utf8_bytes c @ bs) = c # utf8_start bs"
proof -
  define x where "x = c div 0x40"
  have x: "2 \<le> x" "x < 0x20" using assms unfolding x_def by simp_all
  have e: "(0xC0 + x) mod 0x20 = x" using x by (intro mod_drop) simp_all
  have r: "x * 0x40 + c mod 0x40 = c" unfolding x_def by simp
  have bytes: "utf8_bytes c = [of_nat (0xC0 + x), of_nat (0x80 + c mod 0x40)]"
    using assms by (simp add: utf8_bytes_def x_def del: of_nat_add)
  have "utf8_start (utf8_bytes c @ bs) = utf8_cont 1 x 0x80 0xBF (of_nat (0x80 + c mod 0x40) # bs)"
    unfolding bytes using x by (simp add: utf8_lead_step e del: of_nat_add utf8_start.simps)
  also have "\<dots> = (x * 0x40 + c mod 0x40) # utf8_start bs"
    by (subst utf8_cont_step) (simp_all del: utf8_cont.simps utf8_start.simps of_nat_add)
  finally show ?thesis by (simp only: r)
qed

lemma utf8_start_3:
  assumes "0x800 \<le> c" "c < 0x10000" "scalar c"
  shows "utf8_start (utf8_bytes c @ bs) = c # utf8_start bs"
proof -
  define x where "x = c div 0x40"
  define y where "y = x div 0x40"
  define lo :: nat where "lo = (if 0xE0 + y = 0xE0 then 0xA0 else 0x80)"
  define hi :: nat where "hi = (if 0xE0 + y = 0xED then 0x9F else 0xBF)"
  have x: "0x20 \<le> x" "x < 0x400" using assms(1,2) unfolding x_def by simp_all
  have x3: "\<not> (0x360 \<le> x \<and> x < 0x380)"
    using assms(3) surrogate_div [of c] unfolding x_def scalar_def by blast
  have dx: "x = y * 0x40 + x mod 0x40" unfolding y_def by simp
  have y: "y < 0x10" "y = 0 \<Longrightarrow> 0x20 \<le> x mod 0x40" "y = 0xD \<Longrightarrow> x mod 0x40 < 0x20"
    using x x3 dx by linarith+
  have lo: "lo \<le> 0x80 + x mod 0x40" using y(2) unfolding lo_def by simp
  have m: "x mod 0x40 < 0x40" by simp
  have hi: "0x80 + x mod 0x40 \<le> hi" using y(3) m unfolding hi_def by auto
  have e: "(0xE0 + y) mod 0x10 = y" using y by (intro mod_drop) simp_all
  have r: "(y * 0x40 + x mod 0x40) * 0x40 + c mod 0x40 = c"
    unfolding y_def x_def by simp
  have bytes: "utf8_bytes c = [of_nat (0xE0 + y), of_nat (0x80 + x mod 0x40), of_nat (0x80 + c mod 0x40)]"
    using assms(1,2) by (simp add: utf8_bytes_def div_4096 x_def y_def del: of_nat_add)
  have l: "0xC2 \<le> 0xE0 + y" "0xE0 + y \<le> 0xF4" "\<not> 0xE0 + y \<le> 0xDF" "0xE0 + y \<le> 0xEF"
    using y(1) by simp_all
  have "utf8_start (utf8_bytes c @ bs) =
      utf8_cont 2 y lo hi (of_nat (0x80 + x mod 0x40) # of_nat (0x80 + c mod 0x40) # bs)"
    unfolding bytes append_Cons append_Nil utf8_lead_step [OF l(1,2)] lo_def hi_def
    by (simp only: l e if_True if_False)
  also have "\<dots> = utf8_cont 1 (y * 0x40 + x mod 0x40) 0x80 0xBF (of_nat (0x80 + c mod 0x40) # bs)"
    by (subst utf8_cont_step [OF m lo hi]) (simp del: utf8_cont.simps utf8_start.simps of_nat_add)
  also have "\<dots> = ((y * 0x40 + x mod 0x40) * 0x40 + c mod 0x40) # utf8_start bs"
    by (subst utf8_cont_step) (simp_all del: utf8_cont.simps utf8_start.simps of_nat_add)
  finally show ?thesis by (simp only: r)
qed


lemma utf8_start_4:
  assumes "0x10000 \<le> c" "c < 0x110000"
  shows "utf8_start (utf8_bytes c @ bs) = c # utf8_start bs"
proof -
  define x where "x = c div 0x40"
  define y where "y = x div 0x40"
  define z where "z = y div 0x40"
  define lo :: nat where "lo = (if 0xF0 + z = 0xF0 then 0x90 else 0x80)"
  define hi :: nat where "hi = (if 0xF0 + z = 0xF4 then 0x8F else 0xBF)"
  have x: "0x400 \<le> x" "x < 0x4400" using assms(1,2) unfolding x_def by simp_all
  have y: "0x10 \<le> y" "y < 0x110" using x unfolding y_def by simp_all
  have dy: "y = z * 0x40 + y mod 0x40" unfolding z_def by simp
  have z: "z \<le> 4" "z = 0 \<Longrightarrow> 0x10 \<le> y mod 0x40" "z = 4 \<Longrightarrow> y mod 0x40 < 0x10"
    using y dy by linarith+
  have m: "y mod 0x40 < 0x40" by simp
  have lo: "lo \<le> 0x80 + y mod 0x40" using z(2) unfolding lo_def by simp
  have hi: "0x80 + y mod 0x40 \<le> hi" using z(3) m unfolding hi_def by auto
  have e: "(0xF0 + z) mod 0x8 = z" using z by (intro mod_drop) simp_all
  have r: "((z * 0x40 + y mod 0x40) * 0x40 + x mod 0x40) * 0x40 + c mod 0x40 = c"
    unfolding z_def y_def x_def by simp
  have bytes: "utf8_bytes c = [of_nat (0xF0 + z), of_nat (0x80 + y mod 0x40),
      of_nat (0x80 + x mod 0x40), of_nat (0x80 + c mod 0x40)]"
    using assms(1,2) by (simp add: utf8_bytes_def div_4096 div_262144 x_def y_def z_def del: of_nat_add)
  have l: "0xC2 \<le> 0xF0 + z" "0xF0 + z \<le> 0xF4" "\<not> 0xF0 + z \<le> 0xDF" "\<not> 0xF0 + z \<le> 0xEF"
    using z(1) by simp_all
  have "utf8_start (utf8_bytes c @ bs) =
      utf8_cont 3 z lo hi
        (of_nat (0x80 + y mod 0x40) # of_nat (0x80 + x mod 0x40) # of_nat (0x80 + c mod 0x40) # bs)"
    unfolding bytes append_Cons append_Nil utf8_lead_step [OF l(1,2)] lo_def hi_def
    by (simp only: l e if_True if_False)
  also have "\<dots> = utf8_cont 2 (z * 0x40 + y mod 0x40) 0x80 0xBF
        (of_nat (0x80 + x mod 0x40) # of_nat (0x80 + c mod 0x40) # bs)"
    by (subst utf8_cont_step [OF m lo hi]) (simp del: utf8_cont.simps utf8_start.simps of_nat_add)
  also have "\<dots> = utf8_cont 1 ((z * 0x40 + y mod 0x40) * 0x40 + x mod 0x40) 0x80 0xBF
        (of_nat (0x80 + c mod 0x40) # bs)"
    by (subst utf8_cont_step) (simp_all del: utf8_cont.simps utf8_start.simps of_nat_add)
  also have "\<dots> = (((z * 0x40 + y mod 0x40) * 0x40 + x mod 0x40) * 0x40 + c mod 0x40) # utf8_start bs"
    by (subst utf8_cont_step) (simp_all del: utf8_cont.simps utf8_start.simps of_nat_add)
  finally show ?thesis by (simp only: r)
qed

lemma utf8_start_bytes:
  assumes "scalar c"
  shows "utf8_start (utf8_bytes c @ bs) = c # utf8_start bs"
proof -
  consider "c < 0x80" | "0x80 \<le> c" "c < 0x800" | "0x800 \<le> c" "c < 0x10000"
    | "0x10000 \<le> c" "c < 0x110000"
    using assms unfolding scalar_def by linarith
  then show ?thesis
    using assms by cases (simp_all add: utf8_start_1 utf8_start_2 utf8_start_3 utf8_start_4)
qed

lemma utf8_start_concat:
  "list_all scalar cs \<Longrightarrow> utf8_start (concat (map utf8_bytes cs)) = cs"
  by (induction cs) (simp_all add: utf8_start_bytes)

lemma surrogate_nat:
  "is_high_surrogate u = (0xD800 \<le> unat u \<and> unat u \<le> 0xDBFF)"
  "is_low_surrogate u = (0xDC00 \<le> unat u \<and> unat u \<le> 0xDFFF)"
  by (simp_all add: is_high_surrogate_def is_low_surrogate_def word_le_nat_alt)

lemma unit_scalar:
  assumes "\<not> is_high_surrogate u" "\<not> is_low_surrogate u"
  shows "scalar (unat u)" "code_units (unat u) = [u]"
proof -
  have "unat u < 0x10000" using unsigned_less [of u, where 'a = nat] by simp
  then show "scalar (unat u)" "code_units (unat u) = [u]"
    using assms by (auto simp: scalar_def surrogate_nat code_units_def)
qed

lemma pair_scalar:
  assumes "is_high_surrogate u" "is_low_surrogate l"
  defines "c \<equiv> 0x10000 + (unat u - 0xD800) * 0x400 + (unat l - 0xDC00)"
  shows "scalar c" "code_units c = [u, l]"
proof -
  define a where "a = unat u - 0xD800"
  define b where "b = unat l - 0xDC00"
  have a: "a < 0x400" "0xD800 + a = unat u" using assms(1) by (auto simp: a_def surrogate_nat)
  have b: "b < 0x400" "0xDC00 + b = unat l" using assms(2) by (auto simp: b_def surrogate_nat)
  have c: "c = 0x10000 + (a * 0x400 + b)" by (simp add: c_def a_def b_def)
  have "a * 0x400 + b < 0x100000" using a(1) b(1) by linarith
  then show "scalar c" by (simp add: c scalar_def)
  have d: "(a * 0x400 + b) div 0x400 = a" "(a * 0x400 + b) mod 0x400 = b" using b(1) by simp_all
  have u': "(of_nat (0xD800 + a) :: 16 word) = u" unfolding a(2) by simp
  have l': "(of_nat (0xDC00 + b) :: 16 word) = l" unfolding b(2) by simp
  have e: "c - 0x10000 = a * 0x400 + b" "\<not> c < 0x10000" by (simp_all add: c)
  show "code_units c = [u, l]"
    by (simp only: code_units_def e d if_False u' l')
qed

lemma code_points_well_formed:
  "well_formed_utf16 s \<Longrightarrow>
   list_all scalar (code_points s) \<and> concat (map code_units (code_points s)) = s"
proof (induction s rule: code_points.induct)
  case 1
  then show ?case by simp
next
  case (2 u)
  then show ?case by (simp add: unit_scalar)
next
  case (3 u l us)
  show ?case
  proof (cases "is_high_surrogate u")
    case True
    with 3 show ?thesis by (simp add: pair_scalar)
  next
    case False
    with 3 show ?thesis by (simp add: unit_scalar)
  qed
qed

lemma code_points_no_BOM:
  "no_BOM s \<Longrightarrow> strip_bom (code_points s) = code_points s"
proof (cases s rule: code_points.cases)
  case 1
  then show ?thesis by (simp add: strip_bom_def)
next
  case (2 u)
  assume "no_BOM s"
  with 2 have "u \<noteq> 0xFEFF" by (simp add: no_BOM_def)
  then have "unat u \<noteq> 0xFEFF" by (simp add: word_unat_eq_iff)
  with 2 show ?thesis by (simp add: strip_bom_def)
next
  case (3 u l us)
  assume "no_BOM s"
  with 3 have "u \<noteq> 0xFEFF" by (simp add: no_BOM_def)
  then have "unat u \<noteq> 0xFEFF" by (simp add: word_unat_eq_iff)
  with 3 show ?thesis by (simp add: strip_bom_def)
qed

lemma text_roundtrip:
  assumes "well_formed_utf16 s" "no_BOM s"
  shows "TextDecoder_decode (TextEncoder_encode s) = s"
  using code_points_well_formed [OF assms(1)] code_points_no_BOM [OF assms(2)]
  by (simp add: TextDecoder_decode_def TextEncoder_encode_def utf8_start_concat)

section \<open>Reading and writing a buffer\<close>

lemma byte_ranges:
  fixes n :: nat
  assumes "n < 64"
  obtains "n < 8" | "8 \<le> n" "n < 16" | "16 \<le> n" "n < 24" | "24 \<le> n" "n < 32"
    | "32 \<le> n" "n < 40" | "40 \<le> n" "n < 48" | "48 \<le> n" "n < 56" | "56 \<le> n" "n < 64"
  using assms by linarith

lemma from_be32_be32: "from_be32 (be32 w @ rest) = w"
proof (rule bit_word_eqI)
  fix n assume n: "n < LENGTH(32)"
  then have "n < 64" by simp
  then show "bit (from_be32 (be32 w @ rest)) n = bit w n"
    using n by (cases n rule: byte_ranges) (auto simp add: from_be32_def be32_def bit_simps)
qed

lemma from_be64_be64: "from_be64 (be64 w @ rest) = w"
proof (rule bit_word_eqI)
  fix n assume n: "n < LENGTH(64)"
  then have "n < 64" by simp
  then show "bit (from_be64 (be64 w @ rest)) n = bit w n"
    using n by (cases n rule: byte_ranges) (auto simp add: from_be64_def be64_def bit_simps)
qed

lemma length_be32 [simp]: "length (be32 w) = 4"
  by (simp add: be32_def)

lemma length_be64 [simp]: "length (be64 w) = 8"
  by (simp add: be64_def)

lemma getUint8_drop: "drop off buf = b # rest \<Longrightarrow> getUint8 buf off = Inr b"
proof -
  assume d: "drop off buf = b # rest"
  then have "off < length buf" by (metis drop_all list.distinct(1) not_le)
  moreover from this d have "buf ! off = b" by (metis hd_drop_conv_nth list.sel(1))
  ultimately show ?thesis by (simp add: getUint8_def)
qed

lemma getUint32_drop: "drop off buf = be32 w @ rest \<Longrightarrow> getUint32 buf off = Inr (unat w)"
proof -
  assume d: "drop off buf = be32 w @ rest"
  then have "length buf - off = 4 + length rest" by (metis length_append length_be32 length_drop)
  then have "off + 4 \<le> length buf" by simp
  then show ?thesis by (simp add: getUint32_def d from_be32_be32 [of w "[]", simplified])
qed

lemma getFloat64_drop: "drop off buf = be64 x @ rest \<Longrightarrow> getFloat64 buf off = Inr x"
proof -
  assume d: "drop off buf = be64 x @ rest"
  then have "length buf - off = 8 + length rest" by (metis length_append length_be64 length_drop)
  then have "off + 8 \<le> length buf" by simp
  then show ?thesis by (simp add: getFloat64_def d from_be64_be64 [of x "[]", simplified])
qed

lemma slice_drop: "drop off buf = xs @ rest \<Longrightarrow> slice buf off (off + length xs) = xs"
  by (simp add: slice_def)

lemma drop_more: "drop off buf = xs @ rest \<Longrightarrow> drop (off + length xs) buf = rest"
  by (metis add.commute append_eq_conv_conj drop_drop)

lemma unat_of_nat32: "n < 2 ^ 32 \<Longrightarrow> unat (of_nat n :: 32 word) = n"
  by (simp add: unat_of_nat)

text \<open>\<open>fill buf off bs\<close> is \<open>buf\<close> with \<open>bs\<close> written over it from \<open>off\<close>.\<close>

definition fill :: "bytes \<Rightarrow> nat \<Rightarrow> bytes \<Rightarrow> bytes" where
  "fill buf off bs = take off buf @ bs @ drop (off + length bs) buf"

lemma store_fill:
  "store buf off src = (if off + length src \<le> length buf then Inr (fill buf off src) else Inl RangeError)"
  by (simp add: store_def fill_def)

lemma fill_append: "fill (pre @ post) (length pre) bs = pre @ bs @ drop (length bs) post"
  by (simp add: fill_def)

lemma split_at:
  assumes "off \<le> length buf"
  obtains pre post where "buf = pre @ post" "length pre = off"
  using assms by (metis append_take_drop_id length_take min.absorb2)

lemma length_fill [simp]: "off + length bs \<le> length buf \<Longrightarrow> length (fill buf off bs) = length buf"
  by (simp add: fill_def)

lemma fill_fill:
  assumes "off + length as + length bs \<le> length buf"
  shows "fill (fill buf off as) (off + length as) bs = fill buf off (as @ bs)"
proof -
  from assms have "off \<le> length buf" by simp
  then obtain pre post where b: "buf = pre @ post" and l: "length pre = off" by (rule split_at)
  have "fill (fill buf off as) (off + length as) bs =
      fill ((pre @ as) @ drop (length as) post) (length (pre @ as)) bs"
    unfolding b l [symmetric] by (simp add: fill_append)
  also have "\<dots> = pre @ (as @ bs) @ drop (length (as @ bs)) post"
    unfolding fill_append by (simp add: add.commute)
  also have "\<dots> = fill buf off (as @ bs)"
    unfolding b l [symmetric] fill_append ..
  finally show ?thesis .
qed

lemma fill_Nil [simp]: "off \<le> length buf \<Longrightarrow> fill buf off [] = buf"
  by (simp add: fill_def)

lemma take_fill_less:
  assumes "off + length bs \<le> length buf" "n \<le> length bs"
  shows "take (off + n) (fill buf off bs) = take off buf @ take n bs"
proof -
  from assms have "off \<le> length buf" by simp
  then obtain pre post where b: "buf = pre @ post" and l: "length pre = off" by (rule split_at)
  show ?thesis unfolding b l [symmetric] fill_append using assms(2) by simp
qed

lemma take_fill:
  "off + length bs \<le> length buf \<Longrightarrow> take (off + length bs) (fill buf off bs) = take off buf @ bs"
  using take_fill_less [of off bs buf "length bs"] by simp

lemma take_fill_before:
  assumes "off \<le> length buf" "n \<le> off"
  shows "take n (fill buf off bs) = take n buf"
proof -
  obtain pre post where b: "buf = pre @ post" and l: "length pre = off"
    using assms(1) by (rule split_at)
  show ?thesis unfolding b l [symmetric] fill_append using assms(2) l by simp
qed

lemma fill_all: "fill (replicate (length bs) x) 0 bs = bs"
  by (simp add: fill_def)

section \<open>The second implementation writes the wire format\<close>

text \<open>
  \<open>writes_B c bs\<close>: the size calculated for the chunk \<open>c\<close> is the length of \<open>bs\<close>, and
  writing \<open>c\<close> at an offset of a buffer with that much room puts \<open>bs\<close> there, changes
  nothing else and returns the offset after it.
\<close>

definition writes_B :: "chunk_B \<Rightarrow> bytes \<Rightarrow> bool" where
  "writes_B c bs =
     (calculateSize c = length bs \<and>
      (\<forall>buf off. off + length bs \<le> length buf \<longrightarrow>
         writeChunk_B c buf off = Inr (fill buf off bs, off + length bs)))"

definition flat :: "(jsstring \<times> value) list \<Rightarrow> value list" where
  "flat ps = concat (map (\<lambda>p. [Str (fst p), snd p]) ps)"

lemma length_flat [simp]: "length (flat ps) = 2 * length ps"
  by (induction ps) (simp_all add: flat_def)

lemma set_flat: "x \<in> set (flat ps) \<Longrightarrow> (\<exists>s. x = Str s) \<or> x \<in> snd ` set ps"
  by (auto simp: flat_def)

lemma wire_Object_flat:
  "concat (map (\<lambda>p. wire_bytes (T T_String) (TextEncoder_encode (fst p)) @ wire T payload (snd p)) ps)
     = concat (map (wire T payload) (flat ps))"
  by (induction ps) (simp_all add: flat_def)

lemma fill2:
  "off + (1 + length bs) \<le> length buf \<Longrightarrow>
   fill (fill buf off [t]) (Suc off) bs = fill buf off (t # bs)"
  using fill_fill [of off "[t]" bs buf] by simp

lemma fill3:
  "off + (5 + length bs) \<le> length buf \<Longrightarrow>
   fill (fill (fill buf off [t]) (Suc off) (be32 w)) (5 + off) bs = fill buf off (t # be32 w @ bs)"
  using fill_fill [of off "[t]" "be32 w" buf] fill_fill [of off "t # be32 w" bs buf]
  by (simp add: ac_simps)

lemma wire_simps:
  "wire T payload (Array vs) =
     of_nat (T T_Array) # be32 (of_nat (length vs)) @ concat (map (wire T payload) vs)"
  "wire T payload (Object ps) =
     of_nat (T T_Object) # be32 (of_nat (length ps)) @ concat (map (wire T payload) (flat ps))"
  by (simp_all only: wire.simps wire_Object_flat)

lemmas wire_B_composite = wire_simps [of TYPES_B Uint8Array_view, folded wire_B_def]

lemmas wire_A_composite = wire_simps [of TYPES_A payload_A, folded wire_A_def]

lemma writes_B_list:
  assumes "list_all2 writes_B cs bss"
  shows "calculateSizes cs n = n + length (concat bss)"
    and "off + length (concat bss) \<le> length buf \<Longrightarrow>
         writeChunks_B cs buf off = Inr (fill buf off (concat bss), off + length (concat bss))"
  using assms
proof (induction cs bss arbitrary: n buf off rule: list_all2_induct)
  case Nil
  { case 1 show ?case by simp }
  { case 2 then show ?case by simp }
next
  case (Cons c cs bs bss)
  { case 1 show ?case using Cons.hyps(1) Cons.IH(1) by (simp add: writes_B_def) }
  { case 2
    have w: "writeChunk_B c buf off = Inr (fill buf off bs, off + length bs)"
      using Cons.hyps(1) 2 by (simp add: writes_B_def)
    have "writeChunks_B cs (fill buf off bs) (off + length bs) =
        Inr (fill (fill buf off bs) (off + length bs) (concat bss),
             off + length bs + length (concat bss))"
      using 2 by (intro Cons.IH(2)) simp
    then show ?case using 2 by (simp add: w fill_fill add.assoc) }
qed

lemma sequence_map:
  assumes "\<And>v. v \<in> set vs \<Longrightarrow> \<exists>c. f v = Inr c \<and> P c (g v)"
  shows "\<exists>cs. sequence (map f vs) = Inr cs \<and> list_all2 P cs (map g vs)"
  using assms
proof (induction vs)
  case Nil
  then show ?case by simp
next
  case (Cons v vs)
  then obtain c where c: "f v = Inr c" "P c (g v)" by auto
  from Cons obtain cs where cs: "sequence (map f vs) = Inr cs" "list_all2 P cs (map g vs)" by auto
  show ?case using c cs by simp
qed


lemma writes_B_leaf:
  assumes "TYPED_ARRAY_TYPES type \<noteq> None \<or> type = TYPES_B T_String"
    and "type \<notin> {TYPES_B T_Null, TYPES_B T_Boolean, TYPES_B T_Number, TYPES_B T_Date}"
  shows "writes_B (Chunk_B type (length bs) (Bytes bs) Absent) (wire_bytes type bs)"
proof -
  have "writeChunk_B (Chunk_B type (length bs) (Bytes bs) Absent) buf off =
      Inr (fill buf off (wire_bytes type bs), off + length (wire_bytes type bs))"
    if "off + length (wire_bytes type bs) \<le> length buf" for buf off
    using that assms
    by (simp add: setUint8_def setUint32_def Uint8Array_set_def store_fill fill3 wire_bytes_def)
  moreover have "calculateSize (Chunk_B type (length bs) (Bytes bs) Absent) = length (wire_bytes type bs)"
    using assms by (auto simp: wire_bytes_def)
  ultimately show ?thesis by (simp add: writes_B_def)
qed

lemma writes_B_list_chunk:
  assumes "list_all2 writes_B cs bss" "type = TYPES_B T_Array \<or> type = TYPES_B T_Object"
  shows "writes_B (Chunk_B type n (Subs cs) Absent) (of_nat type # be32 (of_nat n) @ concat bss)"
proof -
  let ?bs = "of_nat type # be32 (of_nat n) @ concat bss"
  have "writeChunk_B (Chunk_B type n (Subs cs) Absent) buf off = Inr (fill buf off ?bs, off + length ?bs)"
    if "off + length ?bs \<le> length buf" for buf off
  proof -
    let ?buf = "fill (fill buf off [of_nat type]) (Suc off) (be32 (of_nat n))"
    have "writeChunks_B cs ?buf (5 + off) =
        Inr (fill ?buf (5 + off) (concat bss), 5 + off + length (concat bss))"
      using that by (intro writes_B_list(2) [OF assms(1)]) simp
    then have 2: "writeChunks_B cs ?buf (5 + off) = Inr (fill buf off ?bs, off + length ?bs)"
      using that by (simp add: fill3)
    show ?thesis using that assms(2)
      by (auto simp add: setUint8_def setUint32_def store_fill TYPED_ARRAY_TYPES_def 2 [simplified])
  qed
  moreover have "calculateSize (Chunk_B type n (Subs cs) Absent) = length ?bs"
    using assms(2) writes_B_list(1) [OF assms(1), of 5] by (auto simp: TYPED_ARRAY_TYPES_def)
  ultimately show ?thesis by (simp add: writes_B_def)
qed

lemma view_shown [simp]: "Uint8Array_view (TypedArray k front shown rest) = shown"
  by (simp add: Uint8Array_view_def)

lemma createChunk_B_Str:
  "createChunk_B (Str s) =
     Inr (Chunk_B (TYPES_B T_String) (length (TextEncoder_encode s)) (Bytes (TextEncoder_encode s)) Absent)"
  by (simp add: createChunk_B.simps Let_def)

lemma createChunk_B_TypedArray:
  "createChunk_B (TypedArray k front shown rest) =
     Inr (Chunk_B (TYPES_B (tname_of k)) (length shown) (Bytes shown) Absent)"
  by (cases k) (simp_all add: createChunk_B.simps Let_def TYPED_ARRAY_TYPES_def)

lemma createChunk_B_Array:
  "createChunk_B (Array vs) =
     (case sequence (map createChunk_B vs) of
        Inl e \<Rightarrow> Inl e
      | Inr items \<Rightarrow> Inr (Chunk_B (TYPES_B T_Array) (length items) (Subs items) Absent))"
  by (simp add: createChunk_B.simps [of "Array vs"] Let_def TYPED_ARRAY_TYPES_def
      split: sum.splits)

lemma createChunk_B_Object:
  "createChunk_B (Object ps) =
     (case sequence (map createChunk_B (flat ps)) of
        Inl e \<Rightarrow> Inl e
      | Inr entries \<Rightarrow> Inr (Chunk_B (TYPES_B T_Object) (length entries div 2) (Subs entries) Absent))"
proof -
  have "concat (map (\<lambda>(key, x). [createChunk_B (Str key), createChunk_B x]) ps)
      = map createChunk_B (flat ps)"
    by (induction ps) (auto simp: flat_def)
  then show ?thesis
    by (simp add: createChunk_B.simps [of "Object ps"] Let_def TYPED_ARRAY_TYPES_def
        split: sum.splits)
qed

lemma writes_B_scalar:
  "writes_B (Chunk_B (TYPES_B T_Null) 0 NoData Absent) [of_nat (TYPES_B T_Null)]"
  "writes_B (Chunk_B (TYPES_B T_Boolean) 0 NoData (Literal (if b then 0xff else 0x00)))
     [of_nat (TYPES_B T_Boolean), if b then 0xFF else 0x00]"
  "writes_B (Chunk_B (TYPES_B T_Number) 0 NoData (Double x)) (of_nat (TYPES_B T_Number) # be64 x)"
  "writes_B (Chunk_B (TYPES_B T_Date) 0 NoData (Double x)) (of_nat (TYPES_B T_Date) # be64 x)"
proof -
  show "writes_B (Chunk_B (TYPES_B T_Null) 0 NoData Absent) [of_nat (TYPES_B T_Null)]"
    by (simp add: writes_B_def setUint8_def store_fill)
  show "writes_B (Chunk_B (TYPES_B T_Boolean) 0 NoData (Literal (if b then 0xff else 0x00)))
     [of_nat (TYPES_B T_Boolean), if b then 0xFF else 0x00]"
    by (simp add: writes_B_def setUint8_def store_fill fill2)
  show "writes_B (Chunk_B (TYPES_B T_Number) 0 NoData (Double x)) (of_nat (TYPES_B T_Number) # be64 x)"
    by (simp add: writes_B_def setUint8_def setFloat64_def store_fill fill2)
  show "writes_B (Chunk_B (TYPES_B T_Date) 0 NoData (Double x)) (of_nat (TYPES_B T_Date) # be64 x)"
    by (simp add: writes_B_def setUint8_def setFloat64_def store_fill fill2)
qed

theorem createChunk_B_writes:
  "\<exists>c. createChunk_B v = Inr c \<and> writes_B c (wire_B v)"
proof (induction v)
  case Undefined
  show ?case using writes_B_scalar(1) by (simp add: createChunk_B.simps wire_B_def)
next
  case Function
  show ?case using writes_B_scalar(1) by (simp add: createChunk_B.simps wire_B_def)
next
  case Null
  show ?case using writes_B_scalar(1) by (simp add: createChunk_B.simps wire_B_def)
next
  case (Boolean b)
  show ?case using writes_B_scalar(2) [of b] by (simp add: createChunk_B.simps wire_B_def)
next
  case (Number x)
  show ?case using writes_B_scalar(3) [of x] by (simp add: createChunk_B.simps wire_B_def)
next
  case (Str s)
  show ?case using writes_B_leaf [of "TYPES_B T_String" "TextEncoder_encode s"]
    by (simp add: createChunk_B_Str wire_B_def)
next
  case (Date t)
  show ?case using writes_B_scalar(4) [of t] by (simp add: createChunk_B.simps wire_B_def)
next
  case (TypedArray k front shown rest)
  have "TYPED_ARRAY_TYPES (TYPES_B (tname_of k)) \<noteq> None"
    "TYPES_B (tname_of k) \<notin> {TYPES_B T_Null, TYPES_B T_Boolean, TYPES_B T_Number, TYPES_B T_Date}"
    by (cases k; simp add: TYPED_ARRAY_TYPES_def)+
  then show ?case using writes_B_leaf [of "TYPES_B (tname_of k)" shown]
    by (simp add: createChunk_B_TypedArray wire_B_def)
next
  case (Array vs)
  then obtain cs where cs: "sequence (map createChunk_B vs) = Inr cs"
      "list_all2 writes_B cs (map wire_B vs)"
    using sequence_map [of vs createChunk_B writes_B wire_B] by blast
  have "length cs = length vs" using cs(2) by (auto dest: list_all2_lengthD)
  then show ?case
    using writes_B_list_chunk [OF cs(2), of "TYPES_B T_Array" "length vs"]
    by (simp add: createChunk_B_Array cs(1) wire_B_composite)
next
  case (Object ps)
  have "\<exists>c. createChunk_B v = Inr c \<and> writes_B c (wire_B v)" if "v \<in> set (flat ps)" for v
  proof -
    from that consider s where "v = Str s" | p where "p \<in> set ps" "v = snd p"
      by (auto dest: set_flat)
    then show ?thesis
    proof cases
      case 1
      then show ?thesis using writes_B_leaf [of "TYPES_B T_String" "TextEncoder_encode s"]
        by (simp add: createChunk_B_Str wire_B_def)
    next
      case 2
      obtain a b where ab: "p = (a, b)" by (cases p)
      show ?thesis using 2 Object.IH [of "(a, b)" b] by (simp add: ab)
    qed
  qed
  then obtain cs where cs: "sequence (map createChunk_B (flat ps)) = Inr cs"
      "list_all2 writes_B cs (map wire_B (flat ps))"
    using sequence_map [of "flat ps" createChunk_B writes_B wire_B] by blast
  have "length cs = 2 * length ps" using cs(2) by (auto dest: list_all2_lengthD)
  then show ?case
    using writes_B_list_chunk [OF cs(2), of "TYPES_B T_Object" "length ps"]
    by (simp add: createChunk_B_Object cs(1) wire_B_composite)
qed

lemma serialize_B_wire: "serialize_B v = Inr (wire_B v)"
proof -
  obtain c where c: "createChunk_B v = Inr c" "writes_B c (wire_B v)"
    using createChunk_B_writes by blast
  then have "writeChunk_B c (ArrayBuffer (calculateSize c)) 0 =
      Inr (fill (ArrayBuffer (length (wire_B v))) 0 (wire_B v), length (wire_B v))"
    by (simp add: writes_B_def ArrayBuffer_def)
  then show ?thesis by (simp add: serialize_B_def c(1) ArrayBuffer_def fill_all)
qed

section \<open>The second implementation reads the wire format\<close>

lemma readChunk_B_leaf:
  assumes "drop off buf = wire_bytes type bs @ rest" "length bs < 2 ^ 32" "type < 256"
    and "type \<notin> {TYPES_B T_Null, TYPES_B T_Boolean, TYPES_B T_Number, TYPES_B T_Date}"
  shows "type = TYPES_B T_String \<Longrightarrow>
      readChunk_B toString buf off = Inr (Str (TextDecoder_decode bs), off + length (wire_bytes type bs))"
    and "TYPED_ARRAY_TYPES type = Some k \<Longrightarrow> length bs mod BYTES_PER_ELEMENT k = 0 \<Longrightarrow>
      readChunk_B toString buf off = Inr (TypedArray k [] bs [], off + length (wire_bytes type bs))"
proof -
  have t: "getUint8 buf off = Inr (of_nat type)"
    using assms(1) by (intro getUint8_drop) (simp add: wire_bytes_def)
  have u: "unat (of_nat type :: byte) = type" using assms(3) by (simp add: unat_of_nat)
  have d1: "drop (off + 1) buf = be32 (of_nat (length bs)) @ bs @ rest"
    using drop_more [of off buf "[of_nat type]"] assms(1) by (simp add: wire_bytes_def)
  have l: "getUint32 buf (off + 1) = Inr (length bs)"
    using getUint32_drop [OF d1] assms(2) by (simp add: unat_of_nat32)
  have d5: "drop (off + 1 + 4) buf = bs @ rest"
    using drop_more [OF d1] by simp
  have s: "slice buf (off + 1 + 4) (off + 1 + 4 + length bs) = bs"
    using slice_drop [OF d5] .
  show "type = TYPES_B T_String \<Longrightarrow>
      readChunk_B toString buf off = Inr (Str (TextDecoder_decode bs), off + length (wire_bytes type bs))"
    using assms(4)
    by (simp add: readChunk_B.simps [of toString buf off] t u l [simplified] s [simplified]
        wire_bytes_def)
  show "TYPED_ARRAY_TYPES type = Some k \<Longrightarrow> length bs mod BYTES_PER_ELEMENT k = 0 \<Longrightarrow>
      readChunk_B toString buf off = Inr (TypedArray k [] bs [], off + length (wire_bytes type bs))"
    using assms(4)
    by (auto simp add: readChunk_B.simps [of toString buf off] t u l [simplified] s [simplified]
        wire_bytes_def new_TypedArray_def TYPED_ARRAY_TYPES_def split: if_splits)
qed

definition reads_B :: "(value \<Rightarrow> jsstring) \<Rightarrow> bytes \<Rightarrow> value \<Rightarrow> bool" where
  "reads_B toString bs w =
     (\<forall>buf off rest. drop off buf = bs @ rest \<longrightarrow>
        readChunk_B toString buf off = Inr (w, off + length bs))"

lemma readArray_B_wire:
  assumes "list_all2 (reads_B toString) bss ws"
    and "drop off buf = concat bss @ rest" "len = i + length bss"
  shows "readArray_B toString buf len i off arr = Inr (arr @ ws, off + length (concat bss))"
  using assms
proof (induction bss ws arbitrary: off i arr rule: list_all2_induct)
  case Nil
  then show ?case by (simp add: readArray_B.simps [of _ _ _ i])
next
  case (Cons bs bss w ws)
  have r: "readChunk_B toString buf off = Inr (w, off + length bs)"
    using Cons.hyps(1) Cons.prems(1) by (simp add: reads_B_def)
  have d: "drop (off + length bs) buf = concat bss @ rest"
    using drop_more [of off buf bs "concat bss @ rest"] Cons.prems(1) by simp
  have "readArray_B toString buf len (i + 1) (off + length bs) (arr @ [w]) =
      Inr ((arr @ [w]) @ ws, off + length bs + length (concat bss))"
    using Cons.prems(2) by (intro Cons.IH d) simp
  then show ?case using Cons.prems(2)
    by (simp add: readArray_B.simps [of _ _ _ i] r add.assoc)
qed


lemma reads_B_Str:
  "length (TextEncoder_encode s) < 2 ^ 32 \<Longrightarrow>
   reads_B toString (wire_B (Str s)) (Str (transcode s))"
  unfolding reads_B_def
  using readChunk_B_leaf(1) [of _ _ "TYPES_B T_String" "TextEncoder_encode s"]
  by (simp add: wire_B_def transcode_def)

lemma readObject_B_wire:
  assumes "\<And>p. p \<in> set ps \<Longrightarrow> length (TextEncoder_encode (fst p)) < 2 ^ 32 \<and>
             reads_B toString (wire_B (snd p)) (w (snd p))"
    and "drop off buf = concat (map wire_B (flat ps)) @ rest" "len = i + length ps"
  shows "readObject_B toString buf len i off obj =
     Inr (assign_all obj (map (\<lambda>p. (transcode (fst p), w (snd p))) ps),
          off + length (concat (map wire_B (flat ps))))"
  using assms
proof (induction ps arbitrary: off i obj)
  case Nil
  then show ?case by (simp add: readObject_B.simps [of _ _ _ i] assign_all_def flat_def)
next
  case (Cons p ps)
  let ?k = "wire_B (Str (fst p))" and ?v = "wire_B (snd p)"
  have f: "concat (map wire_B (flat (p # ps))) = ?k @ ?v @ concat (map wire_B (flat ps))"
    by (simp add: flat_def)
  have p: "length (TextEncoder_encode (fst p)) < 2 ^ 32" "reads_B toString ?v (w (snd p))"
    using Cons.prems(1) [of p] by simp_all
  have dk: "drop off buf = ?k @ (?v @ concat (map wire_B (flat ps)) @ rest)"
    using Cons.prems(2) by (simp add: f)
  have rk: "readChunk_B toString buf off = Inr (Str (transcode (fst p)), off + length ?k)"
    using reads_B_Str [OF p(1)] dk by (simp add: reads_B_def)
  have dv: "drop (off + length ?k) buf = ?v @ (concat (map wire_B (flat ps)) @ rest)"
    using drop_more [OF dk] by simp
  have rv: "readChunk_B toString buf (off + length ?k) = Inr (w (snd p), off + length ?k + length ?v)"
    using p(2) dv by (simp add: reads_B_def)
  have dr: "drop (off + length ?k + length ?v) buf = concat (map wire_B (flat ps)) @ rest"
    using drop_more [OF dv] by simp
  have "readObject_B toString buf len (i + 1) (off + length ?k + length ?v)
        (set_property obj (transcode (fst p)) (w (snd p))) =
      Inr (assign_all (set_property obj (transcode (fst p)) (w (snd p)))
             (map (\<lambda>p. (transcode (fst p), w (snd p))) ps),
           off + length ?k + length ?v + length (concat (map wire_B (flat ps))))"
    using Cons.prems(1,3) by (intro Cons.IH dr) simp_all
  then show ?case using Cons.prems(3)
    by (simp add: readObject_B.simps [of _ _ _ i] rk rv f assign_all_def add.assoc)
qed

lemma readChunk_B_composite:
  assumes "drop off buf = of_nat type # be32 (of_nat n) @ rest" "n < 2 ^ 32"
  shows "type = TYPES_B T_Array \<Longrightarrow> readChunk_B toString buf off =
      (case readArray_B toString buf n 0 (5 + off) [] of
         Inl e \<Rightarrow> Inl e | Inr (arr, offset') \<Rightarrow> Inr (Array arr, offset'))"
    and "type = TYPES_B T_Object \<Longrightarrow> readChunk_B toString buf off =
      (case readObject_B toString buf n 0 (5 + off) [] of
         Inl e \<Rightarrow> Inl e | Inr (obj, offset') \<Rightarrow> Inr (Object obj, offset'))"
proof -
  have t: "getUint8 buf off = Inr (of_nat type)"
    using assms(1) by (intro getUint8_drop) simp
  have d1: "drop (off + 1) buf = be32 (of_nat n) @ rest"
    using drop_more [of off buf "[of_nat type]"] assms(1) by simp
  have l: "getUint32 buf (off + 1) = Inr n"
    using getUint32_drop [OF d1] assms(2) by (simp add: unat_of_nat32)
  show "type = TYPES_B T_Array \<Longrightarrow> readChunk_B toString buf off =
      (case readArray_B toString buf n 0 (5 + off) [] of
         Inl e \<Rightarrow> Inl e | Inr (arr, offset') \<Rightarrow> Inr (Array arr, offset'))"
    by (simp add: readChunk_B.simps [of toString buf off] t l [simplified] TYPED_ARRAY_TYPES_def)
  show "type = TYPES_B T_Object \<Longrightarrow> readChunk_B toString buf off =
      (case readObject_B toString buf n 0 (5 + off) [] of
         Inl e \<Rightarrow> Inl e | Inr (obj, offset') \<Rightarrow> Inr (Object obj, offset'))"
    by (simp add: readChunk_B.simps [of toString buf off] t l [simplified] TYPED_ARRAY_TYPES_def)
qed

theorem readChunk_B_wire:
  "js_value v \<Longrightarrow> fits v \<Longrightarrow> reads_B toString (wire_B v) (decoded Uint8Array_view v)"
proof (induction v)
  case Undefined
  show ?case
    by (simp add: reads_B_def wire_B_def readChunk_B.simps [of toString] getUint8_drop)
next
  case Function
  show ?case
    by (simp add: reads_B_def wire_B_def readChunk_B.simps [of toString] getUint8_drop)
next
  case Null
  show ?case
    by (simp add: reads_B_def wire_B_def readChunk_B.simps [of toString] getUint8_drop)
next
  case (Boolean b)
  have "readChunk_B toString buf off = Inr (Boolean b, off + 2)"
    if d: "drop off buf = [2, if b then 0xFF else 0] @ rest" for buf off rest
  proof -
    have "getUint8 buf off = Inr 2" using d by (intro getUint8_drop) simp
    moreover have "getUint8 buf (Suc off) = Inr (if b then 0xFF else 0)"
      using drop_more [of off buf "[2]"] d by (intro getUint8_drop) simp
    ultimately show ?thesis by (simp add: readChunk_B.simps [of toString buf off])
  qed
  then show ?case by (simp add: reads_B_def wire_B_def)
next
  case (Number x)
  have "readChunk_B toString buf off = Inr (Number x, off + 9)"
    if d: "drop off buf = (3 # be64 x) @ rest" for buf off rest
  proof -
    have "getUint8 buf off = Inr 3" using d by (intro getUint8_drop) simp
    moreover have "getFloat64 buf (Suc off) = Inr x"
      using drop_more [of off buf "[3]"] d by (intro getFloat64_drop) simp
    ultimately show ?thesis by (simp add: readChunk_B.simps [of toString buf off])
  qed
  then show ?case by (simp add: reads_B_def wire_B_def)
next
  case (Str s)
  then show ?case by (simp add: reads_B_Str)
next
  case (Date t)
  have "readChunk_B toString buf off = Inr (Date (TimeClip t), off + 9)"
    if d: "drop off buf = (4 # be64 t) @ rest" for buf off rest
  proof -
    have "getUint8 buf off = Inr 4" using d by (intro getUint8_drop) simp
    moreover have "getFloat64 buf (Suc off) = Inr t"
      using drop_more [of off buf "[4]"] d by (intro getFloat64_drop) simp
    ultimately show ?thesis by (simp add: readChunk_B.simps [of toString buf off])
  qed
  then show ?case by (simp add: reads_B_def wire_B_def)
next
  case (TypedArray k front shown rest)
  have "TYPED_ARRAY_TYPES (TYPES_B (tname_of k)) = Some k" "TYPES_B (tname_of k) < 256"
    "TYPES_B (tname_of k) \<notin> {TYPES_B T_Null, TYPES_B T_Boolean, TYPES_B T_Number, TYPES_B T_Date}"
    by (cases k; simp add: TYPED_ARRAY_TYPES_def)+
  then show ?case
    unfolding reads_B_def
    using TypedArray readChunk_B_leaf(2) [of _ _ "TYPES_B (tname_of k)" shown _ k]
    by (simp add: wire_B_def)
next
  case (Array vs)
  have "list_all2 (reads_B toString) (map wire_B vs) (map (decoded Uint8Array_view) vs)"
    using Array by (simp add: list_all2_map1 list_all2_map2 list_all2_same list_all_iff)
  then have "readArray_B toString buf (length vs) 0 (5 + off) [] =
      Inr (map (decoded Uint8Array_view) vs, 5 + off + length (concat (map wire_B vs)))"
    if "drop (5 + off) buf = concat (map wire_B vs) @ rest" for buf off rest
    using readArray_B_wire [of toString "map wire_B vs" _ "5 + off" buf rest "length vs" 0 "[]"] that
    by simp
  moreover have "drop (5 + off) buf = concat (map wire_B vs) @ rest"
    if "drop off buf = wire_B (Array vs) @ rest" for buf off rest
    using drop_more [of off buf "of_nat (TYPES_B T_Array) # be32 (of_nat (length vs))"] that
    by (simp add: wire_B_composite add.commute)
  ultimately show ?case
    unfolding reads_B_def using Array.prems(2)
    by (auto simp add: readChunk_B_composite(1) [of _ _ "TYPES_B T_Array" "length vs"]
        wire_B_composite add.assoc)
next
  case (Object ps)
  have e: "length (TextEncoder_encode (fst p)) < 2 ^ 32 \<and>
      reads_B toString (wire_B (snd p)) (decoded Uint8Array_view (snd p))" if "p \<in> set ps" for p
  proof -
    obtain a b where ab: "p = (a, b)" by (cases p)
    from that Object.prems have "js_value b" "fits b" "length (TextEncoder_encode a) < 2 ^ 32"
      by (auto simp add: ab list_all_iff)
    then show ?thesis using that Object.IH [of "(a, b)" b] by (simp add: ab)
  qed
  have "readObject_B toString buf (length ps) 0 (5 + off) [] =
      Inr (assign_all [] (map (\<lambda>p. (transcode (fst p), decoded Uint8Array_view (snd p))) ps),
           5 + off + length (concat (map wire_B (flat ps))))"
    if "drop (5 + off) buf = concat (map wire_B (flat ps)) @ rest" for buf off rest
    using readObject_B_wire [of ps toString "decoded Uint8Array_view" "5 + off" buf rest "length ps" 0 "[]"]
      that e by simp
  moreover have "drop (5 + off) buf = concat (map wire_B (flat ps)) @ rest"
    if "drop off buf = wire_B (Object ps) @ rest" for buf off rest
    using drop_more [of off buf "of_nat (TYPES_B T_Object) # be32 (of_nat (length ps))"] that
    by (simp add: wire_B_composite add.commute)
  ultimately show ?case
    unfolding reads_B_def using Object.prems(2)
    by (auto simp add: readChunk_B_composite(2) [of _ _ "TYPES_B T_Object" "length ps"]
        wire_B_composite add.assoc)
qed

section \<open>Objects and deep equality\<close>

lemma key_order_append:
  "key_order (xs @ ys) =
     (key_order xs \<and> key_order ys \<and> (\<forall>x\<in>set xs. \<forall>y\<in>set ys. precedes x y))"
  by (induction xs) (auto simp: list_all_iff)

lemma insert_index_last:
  "\<forall>p\<in>set obj. \<exists>m. array_index (fst p) = Some m \<and> m < n \<Longrightarrow>
   insert_index n k v obj = obj @ [(k, v)]"
  by (induction obj) auto

lemma set_property_new:
  assumes "k \<noteq> proto_key" "k \<notin> fst ` set obj" "\<forall>p\<in>set obj. precedes (fst p) k"
  shows "set_property obj k v = obj @ [(k, v)]"
proof (cases "array_index k")
  case None
  then show ?thesis using assms(1,2) by (simp add: set_property_def)
next
  case (Some n)
  have "\<forall>p\<in>set obj. \<exists>m. array_index (fst p) = Some m \<and> m < n"
    using assms(3) Some by (auto simp: precedes_def split: option.splits)
  then show ?thesis using assms(1,2) Some by (simp add: set_property_def insert_index_last)
qed

lemma assign_all_append:
  assumes "distinct (map fst (obj @ ps))" "proto_key \<notin> fst ` set ps"
    and "key_order (map fst (obj @ ps))"
  shows "assign_all obj ps = obj @ ps"
  using assms
proof (induction ps arbitrary: obj)
  case Nil
  then show ?case by (simp add: assign_all_def)
next
  case (Cons p ps)
  have "set_property obj (fst p) (snd p) = obj @ [p]"
    using Cons.prems by (intro set_property_new [THEN trans]) (auto simp: key_order_append)
  moreover have "assign_all (obj @ [p]) ps = (obj @ [p]) @ ps"
    using Cons.prems by (intro Cons.IH) auto
  ultimately show ?case by (simp add: assign_all_def)
qed

lemma transcode_plain: "plain_text s \<Longrightarrow> transcode s = s"
  by (simp add: transcode_def plain_text_def text_roundtrip)

lemma decoded_Object:
  assumes "js_value (Object ps)" "plain_keys (Object ps)"
  shows "decoded payload (Object ps) = Object (map (\<lambda>p. (fst p, decoded payload (snd p))) ps)"
proof -
  define qs where "qs = map (\<lambda>p. (fst p, decoded payload (snd p))) ps"
  have q: "map (\<lambda>p. (transcode (fst p), decoded payload (snd p))) ps = qs"
    unfolding qs_def using assms(2) by (auto simp: list_all_iff transcode_plain)
  have k: "map fst qs = map fst ps" unfolding qs_def by (simp add: comp_def)
  have "proto_key \<notin> set (map fst qs)" unfolding k using assms(2) by (auto simp: list_all_iff)
  then have "proto_key \<notin> fst ` set qs" by simp
  moreover have "distinct (map fst ([] @ qs))" "key_order (map fst ([] @ qs))"
    using assms(1) by (simp_all add: k)
  ultimately have "assign_all [] qs = [] @ qs" by (intro assign_all_append)
  then show ?thesis by (simp add: q) (simp add: qs_def)
qed

theorem decoded_deep_equal:
  assumes "js_value v" "plain_keys v"
    and "\<And>k front shown rest. payload (TypedArray k front shown rest) = shown"
  shows "deep_equal (decoded payload v) (lossy v)"
  using assms(1,2)
proof (induction v)
  case (Str s)
  then show ?case by (simp add: transcode_plain)
next
  case (TypedArray k front shown rest)
  show ?case by (simp add: assms(3))
next
  case (Array vs)
  then show ?case by (auto simp: list_all2_map1 list_all2_map2 list_all_iff intro!: list_all2_same [THEN iffD2])
next
  case (Object ps)
  have "deep_equal (decoded payload (snd p)) (lossy (snd p))" if "p \<in> set ps" for p
  proof -
    obtain a b where ab: "p = (a, b)" by (cases p)
    from that Object.prems have "js_value b" "plain_keys b" by (auto simp: ab list_all_iff)
    then show ?thesis using that Object.IH [of "(a, b)" b] by (simp add: ab)
  qed
  then show ?case
    unfolding decoded_Object [OF Object.prems]
    by (auto simp: list_all2_map1 list_all2_map2 intro!: list_all2_same [THEN iffD2])
qed simp_all

lemma wire_nonempty: "wire T payload v \<noteq> []"
  by (cases v) (simp_all add: wire_bytes_def)

theorem deserialize_B_wire:
  assumes "js_value v" "fits v"
  shows "deserialize_B toString (wire_B v @ rest) = Inr (decoded Uint8Array_view v)"
proof -
  have "readChunk_B toString (wire_B v @ rest) 0 = Inr (decoded Uint8Array_view v, 0 + length (wire_B v))"
    using readChunk_B_wire [OF assms, of toString] by (simp add: reads_B_def)
  then show ?thesis using wire_nonempty [of TYPES_B Uint8Array_view v]
    by (simp add: deserialize_B_def wire_B_def)
qed

section \<open>The first implementation writes the wire format\<close>

lemma typed_array_codes:
  "TYPES_A ` set typed_array_names = {11, 12, 13, 14, 15, 16, 17, 18}"
  by (simp add: typed_array_names_def)

lemma createChunk_A_scalar:
  "createChunk_A Undefined 0 = Chunk_A 1 0 (Plain Undefined) None (TYPES_A T_Null)"
  "createChunk_A Function 0 = Chunk_A 1 0 (Plain Function) None (TYPES_A T_Null)"
  "createChunk_A Null 0 = Chunk_A 1 0 (Plain Null) None (TYPES_A T_Null)"
  "createChunk_A (Boolean b) 0 = Chunk_A 2 0 (Plain (Boolean b)) None (TYPES_A T_Boolean)"
  "createChunk_A (Number x) 0 = Chunk_A 9 0 (Plain (Number x)) None (TYPES_A T_Number)"
  "createChunk_A (Date t) 0 = Chunk_A 9 0 (Plain (Date t)) None (TYPES_A T_Date)"
  by (simp_all add: createChunk_A.simps typed_array_codes)

lemma createChunk_A_Str:
  "typeIndex = 0 \<or> typeIndex = TYPES_A T_String \<Longrightarrow>
   createChunk_A (Str s) typeIndex =
     Chunk_A (5 + length (TextEncoder_encode s)) (length (TextEncoder_encode s)) (Plain (Str s))
       (Some (TextEncoder_encode s)) (TYPES_A T_String)"
  by (auto simp add: createChunk_A.simps typed_array_codes Let_def)

lemma createChunk_A_TypedArray:
  "createChunk_A (TypedArray k front shown rest) 0 =
     Chunk_A (5 + length shown) (length shown) (Plain (TypedArray k front shown rest)) None
       (TYPES_A (tname_of k))"
  by (cases k) (simp_all add: createChunk_A.simps typed_array_codes)

lemma createChunk_A_Array:
  "createChunk_A (Array vs) 0 =
     Chunk_A (5 + sum_list (map byteLength_A (map (\<lambda>x. createChunk_A x 0) vs))) (length vs)
       (Chunks (map (\<lambda>x. createChunk_A x 0) vs)) None (TYPES_A T_Array)"
  by (simp add: createChunk_A.simps [of "Array vs"] typed_array_codes Let_def)

lemma createChunk_A_Object:
  "createChunk_A (Object ps) 0 =
     Chunk_A (5 + sum_list (map byteLength_A (map (\<lambda>x. createChunk_A x 0) (flat ps)))) (length ps)
       (Chunks (map (\<lambda>x. createChunk_A x 0) (flat ps))) None (TYPES_A T_Object)"
proof -
  have "concat (map (\<lambda>(s, x). [createChunk_A (Str s) (TYPES_A T_String), createChunk_A x 0]) ps)
      = map (\<lambda>x. createChunk_A x 0) (flat ps)"
    by (induction ps) (auto simp: flat_def createChunk_A_Str)
  then show ?thesis
    by (simp add: createChunk_A.simps [of "Object ps"] typed_array_codes Let_def)
qed

lemma length_payload_A [simp]: "length (payload_A (TypedArray k front shown rest)) = length shown"
  by (simp add: payload_A_def)

theorem byteLength_A_wire: "byteLength_A (createChunk_A v 0) = length (wire_A v)"
proof (induction v)
  case (Str s)
  show ?case by (simp add: createChunk_A_Str wire_A_def wire_bytes_def)
next
  case (TypedArray k front shown rest)
  show ?case by (simp add: createChunk_A_TypedArray wire_A_def wire_bytes_def)
next
  case (Array vs)
  then have "map byteLength_A (map (\<lambda>x. createChunk_A x 0) vs) = map length (map wire_A vs)"
    by simp
  then show ?case by (simp add: createChunk_A_Array wire_A_composite length_concat del: map_map)
next
  case (Object ps)
  have "byteLength_A (createChunk_A v 0) = length (wire_A v)" if "v \<in> set (flat ps)" for v
  proof -
    from that consider s where "v = Str s" | p where "p \<in> set ps" "v = snd p"
      by (auto dest: set_flat)
    then show ?thesis
    proof cases
      case 1
      then show ?thesis by (simp add: createChunk_A_Str wire_A_def wire_bytes_def)
    next
      case 2
      obtain a b where ab: "p = (a, b)" by (cases p)
      show ?thesis using 2 Object.IH [of "(a, b)" b] by (simp add: ab)
    qed
  qed
  then have "map byteLength_A (map (\<lambda>x. createChunk_A x 0) (flat ps)) = map length (map wire_A (flat ps))"
    by simp
  then show ?case by (simp add: createChunk_A_Object wire_A_composite length_concat del: map_map)
qed (simp_all add: createChunk_A_scalar wire_A_def)

section \<open>Decoding errors\<close>

text \<open>
  A conversion to put for \<open>toString\<close> where a statement about one concrete buffer needs
  one. None of the buffers evaluated below holds a key that is not a string.
\<close>

definition blank :: "value \<Rightarrow> jsstring" where
  "blank v = []"

lemma range_TYPES_A:
  "range TYPES_A = {1, 2, 3, 4, 11, 12, 13, 14, 15, 16, 17, 18, 21, 22, 23}"
proof -
  have u: "UNIV = {T_Null, T_Boolean, T_Number, T_Date, T_Int8Array, T_Int16Array, T_Int32Array,
    T_Uint8Array, T_Uint16Array, T_Uint32Array, T_Float32Array, T_Float64Array, T_String,
    T_Array, T_Object}"
    using tname.exhaust by auto
  show ?thesis unfolding u by simp
qed

lemma range_TYPES_B:
  "range TYPES_B = {1, 2, 3, 4, 10, 11, 12, 13, 14, 15, 16, 17, 5, 6, 7}"
proof -
  have u: "UNIV = {T_Null, T_Boolean, T_Number, T_Date, T_Int8Array, T_Int16Array, T_Int32Array,
    T_Uint8Array, T_Uint16Array, T_Uint32Array, T_Float32Array, T_Float64Array, T_String,
    T_Array, T_Object}"
    using tname.exhaust by auto
  show ?thesis unfolding u by simp
qed

text \<open>
  C3, as the claim states it, fails for the first implementation: its \<^verbatim>\<open>deserialize\<close> has
  no test for an empty buffer, so the error is the \<^verbatim>\<open>RangeError\<close> of the read of the type
  byte, not the \<^verbatim>\<open>'Empty buffer'\<close> error.
\<close>

theorem deserialize_A_empty_is_RangeError:
  "deserialize_A blank [] = Inl RangeError \<and> deserialize_A blank [] \<noteq> Inl EmptyBuffer"
  by (simp add: deserialize_A_def readChunk_A.simps getUint8_def)

text \<open>
  C3, amended: for an empty buffer \<^verbatim>\<open>deserialize\<close> fails and returns no value; the second
  implementation fails with its \<^verbatim>\<open>'Empty buffer'\<close> error, the first with the
  \<^verbatim>\<open>RangeError\<close> of reading the type byte out of bounds.
\<close>

theorem deserialize_empty:
  "deserialize_B toString [] = Inl EmptyBuffer \<and> deserialize_A toString [] = Inl RangeError"
  by (simp add: deserialize_B_def deserialize_A_def readChunk_A.simps getUint8_def)

theorem deserialize_empty_witness:
  "deserialize_B blank [] = Inl EmptyBuffer \<and> deserialize_A blank [] = Inl RangeError"
  using deserialize_empty [of blank] by simp

text \<open>
  C4, as the claim states it, fails for the first implementation: the one-byte buffer with
  the unregistered type byte 0 decodes to \<open>Null\<close>.
\<close>

theorem deserialize_A_unregistered_is_Null:
  "0 \<notin> range TYPES_A \<and> deserialize_A blank [0] = Inr Null"
  by (simp add: range_TYPES_A deserialize_A_def readChunk_A.simps getUint8_def readLength_A_def)

text \<open>
  C4, amended: in the second implementation the read of a chunk, at the start of the buffer
  or at any offset inside it that the decoding of an array or an object reaches, fails when
  the byte at that offset is not a registered type code: with the \<^verbatim>\<open>'Unknown type code'\<close>
  error when the four bytes of a length follow it (the length is read before the type code
  is rejected), with the \<^verbatim>\<open>RangeError\<close> of that read otherwise. So a read that returns a
  value has started at a registered type code, and an unregistered one is never passed
  over. The first implementation has no such error: there a chunk with an unregistered type
  byte, at any offset, is read as \<open>Null\<close> and the decoding goes on after it, when the byte
  is below 11 or the bytes of a length field follow it.
\<close>

theorem unregistered_type_code:
  assumes "offset < length buffer" and "t = unat (buffer ! offset)"
  shows "(t \<notin> range TYPES_B \<longrightarrow>
            readChunk_B toString buffer offset =
              (if offset + 5 \<le> length buffer then Inl (UnknownTypeCode t) else Inl RangeError)) \<and>
         (\<forall>r. readChunk_B toString buffer offset = Inr r \<longrightarrow> t \<in> range TYPES_B) \<and>
         (t \<notin> range TYPES_B \<and> offset = 0 \<longrightarrow>
            deserialize_B toString buffer =
              (if 5 \<le> length buffer then Inl (UnknownTypeCode t) else Inl RangeError)) \<and>
         (t \<notin> range TYPES_A \<and> (t < 11 \<or> offset + 5 \<le> length buffer) \<longrightarrow>
            (\<exists>offset'. offset < offset' \<and> readChunk_A toString buffer offset = Inr (Null, offset'))) \<and>
         (t \<notin> range TYPES_A \<and> (t < 11 \<or> 5 \<le> length buffer) \<and> offset = 0 \<longrightarrow>
            deserialize_A toString buffer = Inr Null)"
proof -
  have B: "readChunk_B toString buffer offset =
      (if offset + 5 \<le> length buffer then Inl (UnknownTypeCode t) else Inl RangeError)"
    if "t \<notin> range TYPES_B"
    using that assms
    by (simp add: range_TYPES_B readChunk_B.simps [of toString buffer offset] getUint8_def
        getUint32_def TYPED_ARRAY_TYPES_def)
  have A: "\<exists>offset'. offset < offset' \<and> readChunk_A toString buffer offset = Inr (Null, offset')"
    if "t \<notin> range TYPES_A" "t < 11 \<or> offset + 5 \<le> length buffer"
    using that assms
    by (auto simp add: range_TYPES_A readChunk_A.simps [of toString buffer offset] getUint8_def
        getUint32_def readLength_A_def readSub_A_def)
  have B0: "buffer \<noteq> []" using assms(1) by auto
  show ?thesis
  proof (intro conjI impI allI)
    show "readChunk_B toString buffer offset =
      (if offset + 5 \<le> length buffer then Inl (UnknownTypeCode t) else Inl RangeError)"
      if "t \<notin> range TYPES_B" using B that .
    show "t \<in> range TYPES_B" if "readChunk_B toString buffer offset = Inr r" for r
      using B that by (cases "t \<in> range TYPES_B") (auto split: if_splits)
    show "deserialize_B toString buffer =
        (if 5 \<le> length buffer then Inl (UnknownTypeCode t) else Inl RangeError)"
      if "t \<notin> range TYPES_B \<and> offset = 0"
      using B that B0 by (auto simp add: deserialize_B_def)
    show "\<exists>offset'. offset < offset' \<and> readChunk_A toString buffer offset = Inr (Null, offset')"
      if "t \<notin> range TYPES_A \<and> (t < 11 \<or> offset + 5 \<le> length buffer)"
      using A that by blast
    show "deserialize_A toString buffer = Inr Null"
      if "t \<notin> range TYPES_A \<and> (t < 11 \<or> 5 \<le> length buffer) \<and> offset = 0"
      using A [of] that by (auto simp add: deserialize_A_def)
  qed
qed

theorem unregistered_type_code_witness:
  "readChunk_B blank [6, 0, 0, 0, 1, 9, 0, 0, 0, 0] 5 = Inl (UnknownTypeCode 9) \<and>
   deserialize_B blank [6, 0, 0, 0, 1, 9, 0, 0, 0, 0] = Inl (UnknownTypeCode 9) \<and>
   deserialize_B blank [9, 0, 0, 0, 0] = Inl (UnknownTypeCode 9) \<and>
   deserialize_B blank [9] = Inl RangeError \<and>
   deserialize_A blank [9] = Inr Null \<and>
   deserialize_A blank [19, 0, 0, 0, 1, 7] = Inr Null \<and>
   deserialize_A blank [22, 0, 0, 0, 2, 9, 2, 1] = Inr (Array [Null, Boolean True])"
  using unregistered_type_code [of 5 "[6, 0, 0, 0, 1, 9, 0, 0, 0, 0]" 9 blank]
    unregistered_type_code [of 0 "[9, 0, 0, 0, 0]" 9 blank]
    unregistered_type_code [of 0 "[9]" 9 blank]
    unregistered_type_code [of 0 "[19, 0, 0, 0, 1, 7]" 19 blank]
  by (simp add: range_TYPES_A range_TYPES_B deserialize_B_def deserialize_A_def
      readChunk_B.simps readArray_B.simps readChunk_A.simps readArray_A.simps readLength_A_def
      getUint8_def getUint32_def from_be32_def TYPED_ARRAY_TYPES_def)

text \<open>
  C9: where a Boolean chunk stands in a buffer, at the start or at any offset that the
  decoding of an array or an object reaches, both implementations read it as true for
  every payload byte but \<open>0x00\<close> and as false for \<open>0x00\<close>, and go on two bytes further.
  In particular the buffer of the Boolean type code and a byte \<open>b\<close> decodes to true for
  every \<open>b\<close> that is not \<open>0x00\<close>.
\<close>

theorem Boolean_payload_nonzero:
  assumes "offset + 1 < length buffer"
  shows "(unat (buffer ! offset) = TYPES_A T_Boolean \<longrightarrow>
            readChunk_A toString buffer offset =
              Inr (Boolean (buffer ! (offset + 1) \<noteq> 0), offset + 2)) \<and>
         (unat (buffer ! offset) = TYPES_B T_Boolean \<longrightarrow>
            readChunk_B toString buffer offset =
              Inr (Boolean (buffer ! (offset + 1) \<noteq> 0), offset + 2)) \<and>
         deserialize_A toString [of_nat (TYPES_A T_Boolean), b] = Inr (Boolean (b \<noteq> 0)) \<and>
         deserialize_B toString [of_nat (TYPES_B T_Boolean), b] = Inr (Boolean (b \<noteq> 0))"
  using assms
  by (simp add: deserialize_B_def deserialize_A_def readChunk_A.simps readChunk_B.simps
      getUint8_def readLength_A_def)

theorem Boolean_payload_nonzero_witness:
  "readChunk_A blank [22, 0, 0, 0, 1, 2, 7] 5 = Inr (Boolean True, 7) \<and>
   readChunk_B blank [6, 0, 0, 0, 1, 2, 0x80, 1] 5 = Inr (Boolean True, 7) \<and>
   deserialize_A blank [22, 0, 0, 0, 1, 2, 7] = Inr (Array [Boolean True]) \<and>
   deserialize_B blank [6, 0, 0, 0, 2, 2, 0x80, 2, 0, 1] = Inr (Array [Boolean True, Boolean False]) \<and>
   deserialize_A blank [2, 1] = Inr (Boolean True) \<and>
   deserialize_B blank [2, 0] = Inr (Boolean False)"
  using Boolean_payload_nonzero [of 5 "[22, 0, 0, 0, 1, 2, 7]" blank 1]
    Boolean_payload_nonzero [of 5 "[6, 0, 0, 0, 1, 2, 0x80, 1]" blank 0]
  by (simp add: deserialize_B_def deserialize_A_def readChunk_B.simps readArray_B.simps
      readChunk_A.simps readArray_A.simps readLength_A_def getUint8_def getUint32_def
      from_be32_def TYPED_ARRAY_TYPES_def)

end
